theory Spec2Isabelle
  imports Main
begin

section \<open>Python values, dictionaries and errors\<close>

text \<open>
  The ingest job of \<^verbatim>\<open>air2neo/main.py\<close> works on the JSON values that the tabular
  source returns. A value is \<open>None\<close>, a boolean, an integer, a string, a list or a
  dictionary, or the floating-point value \<open>NaN\<close> that pandas puts where a record
  has no value for a label; other floating-point numbers are left out. A Python
  dictionary keeps its keys in insertion order, so it is an association list; the same
  type serves for a pandas \<open>Series\<close> (one row of a frame), whose labels here are
  the fixed names \<open>id\<close>, \<open>createdTime\<close>, \<open>fields\<close>, \<open>edges\<close> and
  \<open>props\<close>.

  A Python string is a sequence of Unicode code points, so it is a list of natural
  numbers; \<open>ustr\<close> turns a literal into its code points. Which code points are
  uppercase, lowercase or titlecase is decided by the Unicode database that Python
  ships. That table is not part of the program: the functions that depend on it take it
  as the parameter \<open>U\<close>, and what is proved holds for every table.
\<close>

type_synonym pystr = "nat list"

definition ustr :: "string \<Rightarrow> pystr" where
  "ustr s = map of_char s"

datatype letter_case = Upper | Lower | Title | Uncased

type_synonym case_table = "nat \<Rightarrow> letter_case"

datatype pyval =
    VNone
  | VBool bool
  | VInt int
  | VStr pystr
  | VList "pyval list"
  | VDict "(pyval \<times> pyval) list"
  | VNaN

type_synonym pydict = "(pyval \<times> pyval) list"

type_synonym series = "(string \<times> pyval) list"

type_synonym frame = "series list"

datatype py_error = KeyError string | AttributeError | TypeError

text \<open>\<open>d[k] = v\<close>: an existing key keeps its position, a new key goes to the end.\<close>

fun dict_set :: "('k \<times> 'v) list \<Rightarrow> 'k \<Rightarrow> 'v \<Rightarrow> ('k \<times> 'v) list" where
  "dict_set [] k v = [(k, v)]"
| "dict_set ((k', v') # d) k v =
     (if k' = k then (k, v) # d else (k', v') # dict_set d k v)"

text \<open>\<open>del d[k]\<close>, for a key that is present.\<close>

definition dict_del :: "('k \<times> 'v) list \<Rightarrow> 'k \<Rightarrow> ('k \<times> 'v) list" where
  "dict_del d k = filter (\<lambda>kv. fst kv \<noteq> k) d"

text \<open>
  The dictionary comprehension \<open>{f(k): v for k, v in d.items() if p(k)}\<close>: the items
  are visited in order and each selected one is stored under \<open>f(k)\<close>, so that a later
  item overwrites an earlier one with the same new key.
\<close>

definition dict_comp ::
  "('k \<Rightarrow> 'k) \<Rightarrow> ('k \<Rightarrow> bool) \<Rightarrow> ('k \<times> 'v) list \<Rightarrow> ('k \<times> 'v) list" where
  "dict_comp f p d =
     fold (\<lambda>kv acc. if p (fst kv) then dict_set acc (f (fst kv)) (snd kv) else acc) d []"

text \<open>Truth value of an object, as tested by \<open>if x:\<close>.\<close>

fun truthy :: "pyval \<Rightarrow> bool" where
  "truthy VNone = False"
| "truthy (VBool b) = b"
| "truthy (VInt n) = (n \<noteq> 0)"
| "truthy (VStr s) = (s \<noteq> [])"
| "truthy (VList xs) = (xs \<noteq> [])"
| "truthy (VDict d) = (d \<noteq> [])"
| "truthy VNaN = True"

text \<open>
  \<open>for x in v\<close>: a list yields its elements, a string its characters (each a string
  of length one), a dictionary its keys; the other values are not iterable.
\<close>

fun py_iter :: "pyval \<Rightarrow> py_error + pyval list" where
  "py_iter (VList xs) = Inr xs"
| "py_iter (VStr s) = Inr (map (\<lambda>c. VStr [c]) s)"
| "py_iter (VDict d) = Inr (map fst d)"
| "py_iter VNone = Inl TypeError"
| "py_iter (VBool b) = Inl TypeError"
| "py_iter (VInt n) = Inl TypeError"
| "py_iter VNaN = Inl TypeError"

section \<open>Configuration constants\<close>

definition airtable_id_col :: pystr where
  "airtable_id_col = ustr ''_aid''"

definition edge_source :: pystr where
  "edge_source = ustr ''source''"

definition edge_target :: pystr where
  "edge_target = ustr ''target''"

definition edge_label :: pystr where
  "edge_label = ustr ''label''"

section \<open>Column predicates\<close>

text \<open>
  \<open>str.isupper()\<close>: true when the string has at least one cased character and all
  of its cased characters are uppercase, that is, when it has an uppercase character and
  neither a lowercase nor a titlecase one. Characters without case (digits, \<open>_\<close>)
  do not count.
\<close>

definition str_isupper :: "case_table \<Rightarrow> pystr \<Rightarrow> bool" where
  "str_isupper U s =
     (list_ex (\<lambda>c. U c = Upper) s \<and> \<not> list_ex (\<lambda>c. U c = Lower \<or> U c = Title) s)"

text \<open>\<open>s.startswith('_')\<close>; the code point of \<open>_\<close> is 95.\<close>

definition startswith_underscore :: "pystr \<Rightarrow> bool" where
  "startswith_underscore s = (case s of [] \<Rightarrow> False | c # _ \<Rightarrow> c = 95)"

fun keep_col_cond :: "pyval \<Rightarrow> bool" where
  "keep_col_cond (VStr s) = (\<not> startswith_underscore s)"
| "keep_col_cond _ = False"

fun edge_col_cond :: "case_table \<Rightarrow> pyval \<Rightarrow> bool" where
  "edge_col_cond U (VStr s) = str_isupper U s"
| "edge_col_cond U _ = False"

fun prop_col_cond :: "case_table \<Rightarrow> pyval \<Rightarrow> bool" where
  "prop_col_cond U (VStr s) = (\<not> edge_col_cond U (VStr s))"
| "prop_col_cond U _ = False"

text \<open>
  \<open>col.split('__')[0]\<close>: the part of the name before the leftmost \<open>__\<close>, the whole
  name when there is none.
\<close>

fun format_edge_col :: "pystr \<Rightarrow> pystr" where
  "format_edge_col [] = []"
| "format_edge_col [c] = [c]"
| "format_edge_col (a # b # cs) =
     (if a = 95 \<and> b = 95 then [] else a # format_edge_col (b # cs))"

text \<open>
  The same on a dictionary key. The source calls \<open>format_edge_col(k)\<close> only under the
  guard \<open>edge_col_cond(k)\<close>, which holds for strings only; the branch for other keys is
  never taken.
\<close>

fun format_edge_key :: "pyval \<Rightarrow> pyval" where
  "format_edge_key (VStr s) = VStr (format_edge_col s)"
| "format_edge_key k = k"

section \<open>Splitting a row\<close>

text \<open>
  \<open>_split_node_edge\<close> rewrites one row of the frame: \<open>fields\<close> is filtered by
  \<open>keep_col_cond\<close>, \<open>edges\<close> and \<open>props\<close> are built from the filtered
  dictionary, \<open>fields\<close> is deleted, and \<open>createdTime\<close> is deleted when it is truthy.
  A missing label raises \<open>KeyError\<close>; a \<open>fields\<close> value without \<open>items()\<close>
  raises \<open>AttributeError\<close>. The label \<open>id\<close> is not read.
\<close>

definition split_node_edge :: "case_table \<Rightarrow> series \<Rightarrow> py_error + series" where
  "split_node_edge U row =
     (case map_of row ''fields'' of
        None \<Rightarrow> Inl (KeyError ''fields'')
      | Some (VDict fs) \<Rightarrow>
          (let kept = dict_comp id keep_col_cond fs;
               row1 = dict_set row ''fields'' (VDict kept);
               row2 = dict_set row1 ''edges''
                        (VDict (dict_comp format_edge_key (edge_col_cond U) kept));
               row3 = dict_set row2 ''props'' (VDict (dict_comp id (prop_col_cond U) kept));
               row4 = dict_del row3 ''fields''
           in (case map_of row4 ''createdTime'' of
                 None \<Rightarrow> Inl (KeyError ''createdTime'')
               | Some t \<Rightarrow> Inr (if truthy t then dict_del row4 ''createdTime'' else row4)))
      | Some _ \<Rightarrow> Inl AttributeError)"

text \<open>
  The three predicates are applied to a column name in a fixed order by
  \<open>_split_node_edge\<close>: a name that fails \<open>keep_col_cond\<close> is dropped, a kept name
  that passes \<open>edge_col_cond\<close> goes to \<open>edges\<close>, a kept name that passes
  \<open>prop_col_cond\<close> goes to \<open>props\<close>. \<open>classify\<close> names the outcome.
\<close>

datatype column_kind = Ignored | Edge | Property

definition classify :: "case_table \<Rightarrow> pyval \<Rightarrow> column_kind" where
  "classify U k =
     (if \<not> keep_col_cond k then Ignored
      else if edge_col_cond U k then Edge
      else if prop_col_cond U k then Property
      else Ignored)"

text \<open>
  The decision procedure as the specification words it, for comparison: not a string,
  or a leading \<open>_\<close>, is Ignored; otherwise every character uppercase is Edge;
  otherwise Property.
\<close>

fun classify_spec :: "case_table \<Rightarrow> pyval \<Rightarrow> column_kind" where
  "classify_spec U (VStr s) =
     (if startswith_underscore s then Ignored
      else if list_all (\<lambda>c. U c = Upper) s then Edge
      else Property)"
| "classify_spec U _ = Ignored"

text \<open>Whether the two-character separator \<open>__\<close> occurs in a name.\<close>

fun has_sep :: "pystr \<Rightarrow> bool" where
  "has_sep (a # b # cs) = ((a = 95 \<and> b = 95) \<or> has_sep (b # cs))"
| "has_sep _ = False"

section \<open>Frames\<close>

text \<open>Mapping a function that may raise over a list: the first exception ends the loop.\<close>

fun map_result :: "('a \<Rightarrow> 'e + 'b) \<Rightarrow> 'a list \<Rightarrow> 'e + 'b list" where
  "map_result f [] = Inr []"
| "map_result f (x # xs) =
     (case f x of
        Inl e \<Rightarrow> Inl e
      | Inr y \<Rightarrow> (case map_result f xs of Inl e \<Rightarrow> Inl e | Inr ys \<Rightarrow> Inr (y # ys)))"

text \<open>
  \<open>DataFrame(records)\<close>: the columns of the frame are the labels of all the
  records, in the order in which they first occur, and every row has every column; where
  a record has no value for a label the row has \<open>NaN\<close>.
\<close>

definition frame_columns :: "series list \<Rightarrow> string list" where
  "frame_columns records = rev (remdups (rev (concat (map (map fst) records))))"

definition data_frame :: "series list \<Rightarrow> frame" where
  "data_frame records =
     map (\<lambda>r. map (\<lambda>c. (c, case map_of r c of None \<Rightarrow> VNaN | Some v \<Rightarrow> v))
                  (frame_columns records))
       records"

text \<open>
  \<open>df.apply(f, axis=1)\<close> for an \<open>f\<close> that returns a row. On a frame with rows the
  function is applied to each row in order, and the rows it returns are put together
  into a frame again. On a frame without rows pandas does not apply \<open>f\<close> to any row:
  it probes \<open>f\<close> on an empty \<open>Series\<close>, discards whatever that raises, and
  returns a copy of the empty frame.
\<close>

definition frame_apply :: "(series \<Rightarrow> py_error + series) \<Rightarrow> frame \<Rightarrow> py_error + frame" where
  "frame_apply f df =
     (if df = [] then Inr []
      else (case map_result f df of Inl e \<Rightarrow> Inl e | Inr rows \<Rightarrow> Inr (data_frame rows)))"

text \<open>
  \<open>df.apply(f, axis=1).to_list()\<close> for an \<open>f\<close> that returns a dictionary. On a
  frame with rows \<open>apply\<close> returns a \<open>Series\<close> of the results, and \<open>to_list\<close>
  is its list. On a frame without rows \<open>apply\<close> returns the empty \<open>DataFrame\<close>
  again (the probe of \<open>f\<close> on an empty \<open>Series\<close> raises \<open>KeyError\<close>, which is
  discarded), and a \<open>DataFrame\<close> has no attribute \<open>to_list\<close>.
\<close>

definition frame_apply_to_list :: "(series \<Rightarrow> py_error + 'a) \<Rightarrow> frame \<Rightarrow> py_error + 'a list" where
  "frame_apply_to_list f df = (if df = [] then Inl AttributeError else map_result f df)"

section \<open>Nodes and edges of a table\<close>

text \<open>
  \<open>make_node_list\<close>: the node of a row is its \<open>props\<close> dictionary with the row's
  \<open>id\<close> stored under \<open>airtable_id_col\<close>. Item assignment on a value that is not a
  dictionary raises \<open>TypeError\<close>.
\<close>

definition make_node_list :: "series \<Rightarrow> py_error + pydict" where
  "make_node_list row =
     (case map_of row ''props'' of
        None \<Rightarrow> Inl (KeyError ''props'')
      | Some node \<Rightarrow>
          (case map_of row ''id'' of
             None \<Rightarrow> Inl (KeyError ''id'')
           | Some i \<Rightarrow>
               (case node of
                  VDict d \<Rightarrow> Inr (dict_set d (VStr airtable_id_col) i)
                | _ \<Rightarrow> Inl TypeError)))"

definition mk_edge :: "pyval \<Rightarrow> pyval \<Rightarrow> pyval \<Rightarrow> pydict" where
  "mk_edge i k v =
     dict_set (dict_set (dict_set [] (VStr edge_source) i) (VStr edge_target) v)
       (VStr edge_label) k"

text \<open>The two inner loops of the edge phase: \<open>for k, v in edges.items(): for v_ in v\<close>.\<close>

fun edges_of_items :: "pyval \<Rightarrow> pydict \<Rightarrow> py_error + pydict list" where
  "edges_of_items i [] = Inr []"
| "edges_of_items i ((k, v) # rest) =
     (case py_iter v of
        Inl e \<Rightarrow> Inl e
      | Inr vs \<Rightarrow>
          (case edges_of_items i rest of
             Inl e \<Rightarrow> Inl e
           | Inr es \<Rightarrow> Inr (map (mk_edge i k) vs @ es)))"

text \<open>The body of \<open>for _, row in df.iterrows()\<close>.\<close>

definition edges_of_row :: "series \<Rightarrow> py_error + pydict list" where
  "edges_of_row row =
     (case map_of row ''id'' of
        None \<Rightarrow> Inl (KeyError ''id'')
      | Some i \<Rightarrow>
          (case map_of row ''edges'' of
             None \<Rightarrow> Inl (KeyError ''edges'')
           | Some (VDict es) \<Rightarrow> edges_of_items i es
           | Some _ \<Rightarrow> Inl AttributeError))"

definition edge_list_of_frame :: "frame \<Rightarrow> py_error + pydict list" where
  "edge_list_of_frame df =
     (case map_result edges_of_row df of Inl e \<Rightarrow> Inl e | Inr ess \<Rightarrow> Inr (concat ess))"

section \<open>The ingest job\<close>

text \<open>
  The source is the list of tables, each with its name and the records that
  \<open>table.all()\<close> returns for it. Every write of the job runs in a transaction of its own that is committed right
  after the write, so the job is described by the list of writes it has issued, in order,
  and the exception that ended it, if any.
\<close>

datatype store_op =
    Nuke
  | BatchCreateNode pystr "pydict list"
  | CreateConstraintFor pystr pystr
  | BatchCreateEdge "pydict list"

type_synonym source = "(pystr \<times> series list) list"

text \<open>
  \<open>_download_airtable_and_return_as_df\<close>: the records of the table are made into a
  frame, and the frame is split row by row.
\<close>

definition download_airtable_and_return_as_df ::
  "case_table \<Rightarrow> pystr \<times> series list \<Rightarrow> py_error + pystr \<times> frame" where
  "download_airtable_and_return_as_df U table =
     (case frame_apply (split_node_edge U) (data_frame (snd table)) of
        Inl e \<Rightarrow> Inl e
      | Inr df \<Rightarrow> Inr (fst table, df))"

text \<open>
  The loop under \<open># Create Nodes\<close>: per table, the node list is built, the nodes are
  written and committed, and then the constraint is created and committed.
  \<open>make_node_list\<close> stores the identifier into the \<open>props\<close> dictionary of the
  frame itself; the edge loop reads only \<open>id\<close> and \<open>edges\<close>, so the frames are
  passed on unchanged.
\<close>

fun create_nodes :: "(pystr \<times> frame) list \<Rightarrow> store_op list \<times> py_error option" where
  "create_nodes [] = ([], None)"
| "create_nodes ((table, df) # dfs) =
     (case frame_apply_to_list make_node_list df of
        Inl e \<Rightarrow> ([], Some e)
      | Inr node_list \<Rightarrow>
          (case create_nodes dfs of
             (ops, r) \<Rightarrow>
               (BatchCreateNode table node_list
                  # CreateConstraintFor table airtable_id_col # ops, r)))"

text \<open>The loop under \<open># Create Edges\<close>.\<close>

fun create_edges :: "(pystr \<times> frame) list \<Rightarrow> store_op list \<times> py_error option" where
  "create_edges [] = ([], None)"
| "create_edges ((table, df) # dfs) =
     (case edge_list_of_frame df of
        Inl e \<Rightarrow> ([], Some e)
      | Inr edge_list \<Rightarrow>
          (case create_edges dfs of (ops, r) \<Rightarrow> (BatchCreateEdge edge_list # ops, r)))"

definition run_airtable_to_neo4j_ingest_job ::
  "case_table \<Rightarrow> bool \<Rightarrow> source \<Rightarrow> store_op list \<times> py_error option" where
  "run_airtable_to_neo4j_ingest_job U nuke tables =
     (case map_result (download_airtable_and_return_as_df U) tables of
        Inl e \<Rightarrow> ([], Some e)
      | Inr dfs \<Rightarrow>
          (let ops0 = (if nuke then [Nuke] else []) in
           case create_nodes dfs of
             (ops1, Some e) \<Rightarrow> (ops0 @ ops1, Some e)
           | (ops1, None) \<Rightarrow>
               (case create_edges dfs of (ops2, r) \<Rightarrow> (ops0 @ ops1 @ ops2, r))))"

text \<open>Reading the list of writes: which writes are edge writes, and the tables whose
  nodes have been written, in order.\<close>

fun is_edge_write :: "store_op \<Rightarrow> bool" where
  "is_edge_write (BatchCreateEdge es) = True"
| "is_edge_write _ = False"

fun node_write_tables :: "store_op list \<Rightarrow> pystr list" where
  "node_write_tables [] = []"
| "node_write_tables (BatchCreateNode t ns # ops) = t # node_write_tables ops"
| "node_write_tables (_ # ops) = node_write_tables ops"

section \<open>The graph store\<close>

text \<open>
  The store holds nodes (a label and a property dictionary; a placeholder has no label),
  relationships (source identifier, target identifier, label) and the declared
  constraints. The writes themselves are in \<^verbatim>\<open>neo4j_functions.py\<close>, which is not
  among the sources; they are modelled from the specification.
\<close>

type_synonym node = "pystr option \<times> pydict"

record store =
  nodes :: "node list"
  rels :: "(pyval \<times> pyval \<times> pyval) list"
  constraints :: "(pystr \<times> pystr) list"

definition node_aid :: "pydict \<Rightarrow> pyval option" where
  "node_aid p = map_of p (VStr airtable_id_col)"

definition node_key :: "node \<Rightarrow> pystr option \<times> pyval option" where
  "node_key n = (fst n, node_aid (snd n))"

text \<open>
  Modelled from the spec: \<open>batch_create_node\<close> of \<^verbatim>\<open>neo4j_functions.py\<close> is
  missing. A node-merge plan carries a label and a list of property maps, each with the
  identifier; a merge creates the node if no node with that identifier exists under that
  label, and updates it in place otherwise.
\<close>

definition merge_node :: "pystr \<Rightarrow> pydict \<Rightarrow> node list \<Rightarrow> node list" where
  "merge_node label p ns =
     (if list_ex (\<lambda>n. node_key n = (Some label, node_aid p)) ns
      then map (\<lambda>n. if node_key n = (Some label, node_aid p) then (Some label, p) else n) ns
      else ns @ [(Some label, p)])"

definition batch_create_node :: "pystr \<Rightarrow> pydict list \<Rightarrow> store \<Rightarrow> store" where
  "batch_create_node label node_list st =
     st\<lparr>nodes := fold (merge_node label) node_list (nodes st)\<rparr>"

text \<open>
  Modelled from the spec: \<open>create_constraint_for\<close> of \<^verbatim>\<open>neo4j_functions.py\<close> is
  missing. A constraint declaration records that a property must be unique under a label.
\<close>

definition create_constraint_for :: "pystr \<Rightarrow> pystr \<Rightarrow> store \<Rightarrow> store" where
  "create_constraint_for label c st =
     st\<lparr>constraints := List.insert (label, c) (constraints st)\<rparr>"

text \<open>
  Modelled from the spec: \<open>batch_create_edge\<close> of \<^verbatim>\<open>neo4j_functions.py\<close> is
  missing. An edge-merge plan is a list of edge tuples; each is merged between the nodes
  with the source and target identifiers, whatever their label. An identifier found on no
  node gets a minimal placeholder node; a relationship that exists already is not
  created again.
\<close>

definition edge_field :: "pydict \<Rightarrow> pystr \<Rightarrow> pyval" where
  "edge_field e k = (case map_of e (VStr k) of Some v \<Rightarrow> v | None \<Rightarrow> VNone)"

definition merge_endpoint :: "pyval \<Rightarrow> node list \<Rightarrow> node list" where
  "merge_endpoint x ns =
     (if list_ex (\<lambda>n. node_aid (snd n) = Some x) ns then ns
      else ns @ [(None, [(VStr airtable_id_col, x)])])"

definition merge_edge :: "pydict \<Rightarrow> store \<Rightarrow> store" where
  "merge_edge e st =
     (let s = edge_field e edge_source;
          t = edge_field e edge_target;
          l = edge_field e edge_label
      in st\<lparr>nodes := merge_endpoint t (merge_endpoint s (nodes st)),
             rels := List.insert (s, t, l) (rels st)\<rparr>)"

definition batch_create_edge :: "pydict list \<Rightarrow> store \<Rightarrow> store" where
  "batch_create_edge edge_list st = fold merge_edge edge_list st"

text \<open>
  The effect of one write. \<open>Nuke\<close> is the statement \<open>MATCH (n) DETACH DELETE n\<close> of
  the job: every node goes, and every relationship with it.
\<close>

fun exec_op :: "store_op \<Rightarrow> store \<Rightarrow> store" where
  "exec_op Nuke st = st\<lparr>nodes := [], rels := []\<rparr>"
| "exec_op (BatchCreateNode label node_list) st = batch_create_node label node_list st"
| "exec_op (CreateConstraintFor label c) st = create_constraint_for label c st"
| "exec_op (BatchCreateEdge edge_list) st = batch_create_edge edge_list st"

text \<open>One run of the job against a store: the writes it issues, applied in order.\<close>

definition ingest :: "case_table \<Rightarrow> bool \<Rightarrow> source \<Rightarrow> store \<Rightarrow> store" where
  "ingest U nuke tables st =
     fold exec_op (fst (run_airtable_to_neo4j_ingest_job U nuke tables)) st"

section \<open>Sample data\<close>

text \<open>
  A case table for the samples. It agrees with the Unicode database on the letters of
  ASCII and on the accented letters of Latin-1: the code points 65 to 90, 192 to 214 and
  216 to 222 are uppercase, the code points 97 to 122, 223 to 246 and 248 to 255 are
  lowercase. The samples use no other cased character.
\<close>

definition sample_case :: case_table where
  "sample_case c =
     (if (65 \<le> c \<and> c \<le> 90) \<or> (192 \<le> c \<and> c \<le> 214) \<or> (216 \<le> c \<and> c \<le> 222) then Upper
      else if (97 \<le> c \<and> c \<le> 122) \<or> (223 \<le> c \<and> c \<le> 246) \<or> (248 \<le> c \<and> c \<le> 255) then Lower
      else Uncased)"

text \<open>
  A record with two columns of the same label and a property, and what splitting makes
  of it.
\<close>

definition friends_row :: series where
  "friends_row =
     [(''id'', VStr (ustr ''rec00000000000001'')),
      (''createdTime'', VStr (ustr ''2022-01-01T00:00:00.000Z'')),
      (''fields'',
       VDict [(VStr (ustr ''FRIENDS__A''), VList [VStr (ustr ''rec00000000000002'')]),
              (VStr (ustr ''FRIENDS__B''), VList [VStr (ustr ''rec00000000000003'')]),
              (VStr (ustr ''Name''), VStr (ustr ''Ada''))])]"

definition friends_split :: series where
  "friends_split =
     [(''id'', VStr (ustr ''rec00000000000001'')),
      (''edges'', VDict [(VStr (ustr ''FRIENDS''), VList [VStr (ustr ''rec00000000000003'')])]),
      (''props'', VDict [(VStr (ustr ''Name''), VStr (ustr ''Ada''))])]"

text \<open>A second record of the sample table, one that has no \<open>id\<close>.\<close>

definition bob_row :: series where
  "bob_row =
     [(''createdTime'', VStr (ustr ''2022-01-02T00:00:00.000Z'')),
      (''fields'', VDict [(VStr (ustr ''Name''), VStr (ustr ''Bob''))])]"

definition ada_row :: series where
  "ada_row =
     [(''id'', VStr (ustr ''rec00000000000001'')),
      (''createdTime'', VStr (ustr ''2022-01-01T00:00:00.000Z'')),
      (''fields'', VDict [(VStr (ustr ''Name''), VStr (ustr ''Ada'')),
                          (VStr (ustr ''FRIENDS''), VList [VStr (ustr ''rec00000000000002'')]),
                          (VStr (ustr ''_hidden''), VInt 1)])]"

definition ada_split :: series where
  "ada_split =
     [(''id'', VStr (ustr ''rec00000000000001'')),
      (''edges'', VDict [(VStr (ustr ''FRIENDS''), VList [VStr (ustr ''rec00000000000002'')])]),
      (''props'', VDict [(VStr (ustr ''Name''), VStr (ustr ''Ada''))])]"

definition ada_node :: pydict where
  "ada_node = [(VStr (ustr ''Name''), VStr (ustr ''Ada'')), (VStr (ustr ''_aid''), VStr (ustr ''rec00000000000001''))]"

definition ada_edge :: pydict where
  "ada_edge =
     [(VStr (ustr ''source''), VStr (ustr ''rec00000000000001'')),
      (VStr (ustr ''target''), VStr (ustr ''rec00000000000002'')),
      (VStr (ustr ''label''), VStr (ustr ''FRIENDS''))]"

definition people :: source where
  "people = [(ustr ''People'', [ada_row])]"

definition empty_store :: store where
  "empty_store = \<lparr>nodes = [], rels = [], constraints = []\<rparr>"

section \<open>Reading a store\<close>

text \<open>
  The keys under which the store knows its nodes (label and identifier), the identifiers
  alone, and what it means that a write has nothing left to create: every node of a
  node write is there under its label, every edge of an edge write is there with both
  of its end points.
\<close>

definition node_keys :: "store \<Rightarrow> (pystr option \<times> pyval option) set" where
  "node_keys st = node_key ` set (nodes st)"

definition node_ids :: "store \<Rightarrow> pyval option set" where
  "node_ids st = snd ` node_keys st"

definition store_le :: "store \<Rightarrow> store \<Rightarrow> bool" where
  "store_le st st' = (node_keys st \<subseteq> node_keys st' \<and> set (rels st) \<subseteq> set (rels st'))"

definition store_same :: "store \<Rightarrow> store \<Rightarrow> bool" where
  "store_same st st' =
     (node_keys st = node_keys st' \<and> set (rels st) = set (rels st')
      \<and> length (nodes st) = length (nodes st') \<and> length (rels st) = length (rels st'))"

definition store_distinct :: "store \<Rightarrow> bool" where
  "store_distinct st = (distinct (map node_key (nodes st)) \<and> distinct (rels st))"

definition merge_node_step :: "pystr \<Rightarrow> pydict \<Rightarrow> store \<Rightarrow> store" where
  "merge_node_step label p st = st\<lparr>nodes := merge_node label p (nodes st)\<rparr>"

definition node_written :: "pystr \<Rightarrow> pydict \<Rightarrow> store \<Rightarrow> bool" where
  "node_written label p st = ((Some label, node_aid p) \<in> node_keys st)"

definition edge_written :: "pydict \<Rightarrow> store \<Rightarrow> bool" where
  "edge_written e st =
     (Some (edge_field e edge_source) \<in> node_ids st
      \<and> Some (edge_field e edge_target) \<in> node_ids st
      \<and> (edge_field e edge_source, edge_field e edge_target, edge_field e edge_label)
          \<in> set (rels st))"

fun op_written :: "store_op \<Rightarrow> store \<Rightarrow> bool" where
  "op_written Nuke st = True"
| "op_written (BatchCreateNode label ps) st = list_all (\<lambda>p. node_written label p st) ps"
| "op_written (CreateConstraintFor label c) st = True"
| "op_written (BatchCreateEdge es) st = list_all (\<lambda>e. edge_written e st) es"

section \<open>Dictionaries\<close>

lemma map_of_dict_set: "map_of (dict_set d k v) = (map_of d)(k \<mapsto> v)"
  by (induction d) auto

lemma keys_dict_set_list:
  "map fst (dict_set d k v) = (if k \<in> fst ` set d then map fst d else map fst d @ [k])"
  by (induction d) force+

lemma keys_dict_set: "fst ` set (dict_set d k v) = insert k (fst ` set d)"
proof -
  have "set (map fst (dict_set d k v)) = insert k (set (map fst d))"
    unfolding keys_dict_set_list by (simp add: insert_absorb)
  then show ?thesis by simp
qed

lemma keys_dict_comp_gen:
  "fst ` set (fold (\<lambda>kv acc. if p (fst kv) then dict_set acc (f (fst kv)) (snd kv) else acc) d acc0)
     = fst ` set acc0 \<union> f ` {k \<in> fst ` set d. p k}"
proof (induction d arbitrary: acc0)
  case Nil
  then show ?case by simp
next
  case (Cons kv d)
  have sel: "{k \<in> fst ` set (kv # d). p k} =
        (if p (fst kv) then insert (fst kv) {k \<in> fst ` set d. p k} else {k \<in> fst ` set d. p k})"
    by auto
  show ?case
  proof (cases "p (fst kv)")
    case True
    then show ?thesis
      unfolding sel using Cons.IH[of "dict_set acc0 (f (fst kv)) (snd kv)"]
      by (simp add: keys_dict_set)
  next
    case False
    then show ?thesis unfolding sel using Cons.IH[of acc0] by simp
  qed
qed

lemma keys_dict_comp: "fst ` set (dict_comp f p d) = f ` {k \<in> fst ` set d. p k}"
  unfolding dict_comp_def using keys_dict_comp_gen[of p f d "[]"] by simp

lemma map_of_dict_del: "map_of (dict_del d k) = (map_of d)(k := None)"
  unfolding dict_del_def by (induction d) (auto simp: fun_eq_iff)

lemma dict_set_fresh: "k \<notin> fst ` set d \<Longrightarrow> dict_set d k v = d @ [(k, v)]"
  by (induction d) auto

lemma dict_del_dict_set:
  "k \<noteq> k' \<Longrightarrow> dict_del (dict_set d k v) k' = dict_set (dict_del d k') k v"
  by (induction d) (auto simp: dict_del_def)

lemma dict_del_dict_set_same: "dict_del (dict_set d k v) k = dict_del d k"
  by (induction d) (auto simp: dict_del_def)

lemma dict_del_commute: "dict_del (dict_del d a) b = dict_del (dict_del d b) a"
  by (auto simp: dict_del_def intro: filter_cong)

text \<open>On a dictionary, whose keys are distinct, a comprehension that keeps the keys is a filter.\<close>

lemma dict_comp_id_gen:
  "distinct (map fst d) \<Longrightarrow> fst ` set acc \<inter> fst ` set d = {} \<Longrightarrow>
     fold (\<lambda>kv acc. if p (fst kv) then dict_set acc (id (fst kv)) (snd kv) else acc) d acc
       = acc @ filter (\<lambda>kv. p (fst kv)) d"
proof (induction d arbitrary: acc)
  case Nil
  then show ?case by simp
next
  case (Cons kv d)
  from Cons.prems have fresh: "fst kv \<notin> fst ` set acc" and dist: "distinct (map fst d)"
    and notin: "fst kv \<notin> fst ` set d" and disj: "fst ` set acc \<inter> fst ` set d = {}"
    by auto
  show ?case
  proof (cases "p (fst kv)")
    case True
    have "fst ` set (acc @ [kv]) \<inter> fst ` set d = {}" using disj notin by auto
    from Cons.IH[OF dist this] True fresh show ?thesis
      by (simp add: dict_set_fresh)
  next
    case False
    with Cons.IH[OF dist disj] show ?thesis by simp
  qed
qed

lemma dict_comp_id:
  "distinct (map fst d) \<Longrightarrow> dict_comp id p d = filter (\<lambda>kv. p (fst kv)) d"
  unfolding dict_comp_def using dict_comp_id_gen[of d "[]" p] by simp

text \<open>
  In a comprehension that renames keys, the value found under a new key is the value of
  the last selected item that is renamed to it.
\<close>

lemma fold_comp_skip:
  "\<forall>kv\<in>set d. p (fst kv) \<longrightarrow> f (fst kv) \<noteq> l \<Longrightarrow>
     map_of (fold (\<lambda>kv acc. if p (fst kv) then dict_set acc (f (fst kv)) (snd kv) else acc) d acc) l
       = map_of acc l"
  by (induction d arbitrary: acc) (auto simp: map_of_dict_set)

lemma dict_comp_last:
  assumes "p k" and "\<forall>kv\<in>set post. p (fst kv) \<longrightarrow> f (fst kv) \<noteq> f k"
  shows "map_of (dict_comp f p (pre @ (k, v) # post)) (f k) = Some v"
  unfolding dict_comp_def using assms(1) fold_comp_skip[OF assms(2)]
  by (simp add: map_of_dict_set)

section \<open>Properties of the column predicates\<close>

lemmas col_simps = str_isupper_def sample_case_def startswith_underscore_def ustr_def

lemma keep_is_str: "keep_col_cond k \<Longrightarrow> \<exists>s. k = VStr s"
  by (cases k) simp_all

lemma kept_edge_xor_prop: "keep_col_cond k \<Longrightarrow> prop_col_cond U k = (\<not> edge_col_cond U k)"
  by (cases k) simp_all

lemma str_isupper_iff:
  "str_isupper U s \<longleftrightarrow>
     (\<exists>c\<in>set s. U c = Upper) \<and> (\<forall>c\<in>set s. U c \<noteq> Lower \<and> U c \<noteq> Title)"
  by (auto simp: str_isupper_def list_ex_iff)

text \<open>Only the case of the characters of the name itself matters.\<close>

lemma str_isupper_cong: "\<forall>c\<in>set s. U c = V c \<Longrightarrow> str_isupper U s = str_isupper V s"
  by (simp add: str_isupper_iff)

lemma format_edge_col_first_sep:
  "\<not> has_sep (p @ ustr ''_'') \<Longrightarrow> format_edge_col (p @ ustr ''__'' @ s) = p"
  by (induction p rule: format_edge_col.induct) (auto simp: ustr_def)

lemma format_edge_col_no_sep: "\<not> has_sep col \<Longrightarrow> format_edge_col col = col"
  by (induction col rule: format_edge_col.induct) auto

section \<open>Properties of row splitting\<close>

lemma split_node_edge_Inr:
  assumes "split_node_edge U row = Inr r"
  shows "\<exists>fs. map_of row ''fields'' = Some (VDict fs)
           \<and> map_of row ''createdTime'' \<noteq> None
           \<and> map_of r ''props'' = Some (VDict (dict_comp id (prop_col_cond U) (dict_comp id keep_col_cond fs)))
           \<and> map_of r ''edges'' = Some (VDict (dict_comp format_edge_key (edge_col_cond U) (dict_comp id keep_col_cond fs)))
           \<and> map_of r ''id'' = map_of row ''id''"
proof (cases "map_of row ''fields''")
  case None
  with assms show ?thesis by (simp add: split_node_edge_def)
next
  case (Some fv)
  show ?thesis
  proof (cases fv)
    case (VDict fs)
    with Some assms show ?thesis
      by (auto simp: split_node_edge_def Let_def map_of_dict_set map_of_dict_del
               split: option.splits if_splits)
  qed (use Some assms in \<open>simp_all add: split_node_edge_def\<close>)
qed

lemma split_node_edge_succeeds:
  assumes "map_of row ''fields'' = Some (VDict fs)" and "map_of row ''createdTime'' = Some t"
  shows "\<exists>r. split_node_edge U row = Inr r"
  using assms
  by (simp add: split_node_edge_def Let_def map_of_dict_set map_of_dict_del)

lemma keys_kept_props:
  "fst ` set (dict_comp id (prop_col_cond U) (dict_comp id keep_col_cond fs))
     = {k \<in> fst ` set fs. keep_col_cond k \<and> \<not> edge_col_cond U k}"
  by (auto simp: keys_dict_comp kept_edge_xor_prop)

lemma keys_kept_edges:
  "fst ` set (dict_comp format_edge_key (edge_col_cond U) (dict_comp id keep_col_cond fs))
     = format_edge_key ` {k \<in> fst ` set fs. keep_col_cond k \<and> edge_col_cond U k}"
proof -
  have "{k \<in> fst ` set (dict_comp id keep_col_cond fs). edge_col_cond U k}
          = {k \<in> fst ` set fs. keep_col_cond k \<and> edge_col_cond U k}"
    by (auto simp: keys_dict_comp)
  then show ?thesis by (simp add: keys_dict_comp[of format_edge_key])
qed

lemma split_ada: "split_node_edge sample_case ada_row = Inr ada_split"
  by (simp add: ada_row_def ada_split_def split_node_edge_def dict_comp_def dict_del_def col_simps)

lemma node_ada: "make_node_list ada_split = Inr ada_node"
  by (simp add: ada_split_def ada_node_def make_node_list_def airtable_id_col_def ustr_def)

lemma edges_ada: "edges_of_row ada_split = Inr [ada_edge]"
  by (simp add: ada_split_def ada_edge_def edges_of_row_def mk_edge_def
        edge_source_def edge_target_def edge_label_def ustr_def)

section \<open>Claims about classification and row splitting\<close>

text \<open>
  C4. For every row that splits, the keys of \<open>props\<close> and the source columns of
  \<open>edges\<close> (the kept columns that pass \<open>edge_col_cond U\<close> and whose label is a key of
  \<open>edges\<close>) together are exactly the columns of \<open>fields\<close> that are not Ignored;
  no kept column is in both; and every key of \<open>edges\<close> is the label of such a column.
\<close>

theorem split_partition:
  assumes "split_node_edge U row = Inr r"
  shows "\<exists>fs props edges.
      map_of row ''fields'' = Some (VDict fs)
    \<and> map_of r ''props'' = Some (VDict props)
    \<and> map_of r ''edges'' = Some (VDict edges)
    \<and> fst ` set props
        \<union> {k \<in> fst ` set fs. keep_col_cond k \<and> edge_col_cond U k
              \<and> format_edge_key k \<in> fst ` set edges}
        = {k \<in> fst ` set fs. keep_col_cond k}
    \<and> fst ` set props \<inter> {k \<in> fst ` set fs. keep_col_cond k \<and> edge_col_cond U k} = {}
    \<and> fst ` set edges
        = format_edge_key ` {k \<in> fst ` set fs. keep_col_cond k \<and> edge_col_cond U k}"
proof -
  from split_node_edge_Inr[OF assms] obtain fs where
    f: "map_of row ''fields'' = Some (VDict fs)" and
    p: "map_of r ''props'' =
          Some (VDict (dict_comp id (prop_col_cond U) (dict_comp id keep_col_cond fs)))" and
    e: "map_of r ''edges'' =
          Some (VDict (dict_comp format_edge_key (edge_col_cond U) (dict_comp id keep_col_cond fs)))"
    by blast
  let ?props = "dict_comp id (prop_col_cond U) (dict_comp id keep_col_cond fs)"
  let ?edges = "dict_comp format_edge_key (edge_col_cond U) (dict_comp id keep_col_cond fs)"
  have u: "fst ` set ?props
        \<union> {k \<in> fst ` set fs. keep_col_cond k \<and> edge_col_cond U k
              \<and> format_edge_key k \<in> fst ` set ?edges}
        = {k \<in> fst ` set fs. keep_col_cond k}"
    unfolding keys_kept_props keys_kept_edges by blast
  have i: "fst ` set ?props \<inter> {k \<in> fst ` set fs. keep_col_cond k \<and> edge_col_cond U k} = {}"
    unfolding keys_kept_props by blast
  from f p e u i keys_kept_edges[of U fs] show ?thesis by blast
qed

theorem split_partition_witness:
  "split_node_edge sample_case ada_row = Inr ada_split \<and>
   (\<exists>fs props edges.
      map_of ada_row ''fields'' = Some (VDict fs)
    \<and> map_of ada_split ''props'' = Some (VDict props)
    \<and> map_of ada_split ''edges'' = Some (VDict edges)
    \<and> fst ` set props
        \<union> {k \<in> fst ` set fs. keep_col_cond k \<and> edge_col_cond sample_case k
              \<and> format_edge_key k \<in> fst ` set edges}
        = {k \<in> fst ` set fs. keep_col_cond k}
    \<and> fst ` set props \<inter> {k \<in> fst ` set fs. keep_col_cond k \<and> edge_col_cond sample_case k} = {}
    \<and> fst ` set edges
        = format_edge_key ` {k \<in> fst ` set fs. keep_col_cond k \<and> edge_col_cond sample_case k})"
  using split_partition[OF split_ada] split_ada by blast

text \<open>
  C5, as stated, fails: the code tests \<open>str.isupper()\<close>, not "every character is
  uppercase". \<open>FRIENDS_OF\<close> has a character that is not uppercase and is an Edge
  column all the same; the empty name has no character that is not uppercase and is a
  Property column.
\<close>

theorem classify_spec_counterexample:
  "classify sample_case (VStr (ustr ''FRIENDS_OF'')) = Edge
   \<and> classify_spec sample_case (VStr (ustr ''FRIENDS_OF'')) = Property
   \<and> classify sample_case (VStr []) = Property
   \<and> classify_spec sample_case (VStr []) = Edge"
  by (simp add: classify_def col_simps)

text \<open>
  C5, amended. A key that is not a string is Ignored; a string that starts with \<open>_\<close>
  is Ignored; otherwise a string with at least one uppercase character and neither a
  lowercase nor a titlecase character is Edge; every other string is Property. This
  holds whatever the case table says of each code point.
\<close>

theorem classify_decision_order:
  "classify U k =
     (case k of
        VStr s \<Rightarrow>
          if startswith_underscore s then Ignored
          else if (\<exists>c\<in>set s. U c = Upper) \<and> (\<forall>c\<in>set s. U c \<noteq> Lower \<and> U c \<noteq> Title)
            then Edge
          else Property
      | _ \<Rightarrow> Ignored)"
  by (cases k) (simp_all add: classify_def str_isupper_iff)

theorem classify_decision_order_witness:
  "classify sample_case (VStr (ustr ''FRIENDS_OF'')) = Edge
   \<and> classify sample_case (VStr (ustr ''Name'')) = Property
   \<and> classify sample_case (VStr (ustr ''_aid'')) = Ignored
   \<and> classify sample_case (VInt 3) = Ignored
   \<and> classify sample_case (VStr [201]) = Edge
   \<and> classify sample_case (VStr [67, 65, 70, 233]) = Property"
  using classify_decision_order[of sample_case "VStr (ustr ''FRIENDS_OF'')"]
    classify_decision_order[of sample_case "VStr (ustr ''Name'')"]
    classify_decision_order[of sample_case "VStr (ustr ''_aid'')"]
    classify_decision_order[of sample_case "VInt 3"]
    classify_decision_order[of sample_case "VStr [201]"]
    classify_decision_order[of sample_case "VStr [67, 65, 70, 233]"]
  by (simp add: col_simps)

text \<open>
  C6, as stated, fails: \<open>FRIENDS__weight\<close> has lowercase letters, so it is not an Edge
  column. Splitting a row with that column stores it in \<open>props\<close> under its full name
  and leaves \<open>edges\<close> empty: no label \<open>FRIENDS\<close> is produced.
\<close>

theorem friends_weight_counterexample:
  "split_node_edge sample_case
     [(''id'', VStr (ustr ''rec00000000000001'')),
      (''createdTime'', VStr (ustr ''2022-01-01T00:00:00.000Z'')),
      (''fields'',
       VDict [(VStr (ustr ''FRIENDS__weight''), VList [VStr (ustr ''rec00000000000002'')])])]
   = Inr [(''id'', VStr (ustr ''rec00000000000001'')),
          (''edges'', VDict []),
          (''props'',
           VDict [(VStr (ustr ''FRIENDS__weight''), VList [VStr (ustr ''rec00000000000002'')])])]"
  by (simp add: split_node_edge_def dict_comp_def dict_del_def col_simps)

text \<open>
  C6, amended. \<open>format_edge_col\<close> returns the part of a name before the first \<open>__\<close>,
  and the whole name when \<open>__\<close> does not occur. In a row that splits, every kept
  column that passes \<open>edge_col_cond\<close> has its label as a key of \<open>edges\<close>, and the
  value under the label is the unchanged value of the last such column of the row with
  that label: the column's own value unless a later column shares its label, whatever
  the value.
\<close>

theorem format_edge_col_truncates:
  "(\<not> has_sep (p @ ustr ''_'') \<longrightarrow> format_edge_col (p @ ustr ''__'' @ s) = p)
   \<and> (\<not> has_sep col \<longrightarrow> format_edge_col col = col)
   \<and> (split_node_edge U row = Inr r
        \<and> map_of row ''fields'' = Some (VDict fs) \<and> VStr c \<in> fst ` set fs
        \<and> keep_col_cond (VStr c) \<and> edge_col_cond U (VStr c) \<longrightarrow>
        (\<exists>edges. map_of r ''edges'' = Some (VDict edges)
            \<and> VStr (format_edge_col c) \<in> fst ` set edges))
   \<and> (split_node_edge U row = Inr r
        \<and> map_of row ''fields'' = Some (VDict (pre @ (VStr c, v) # post))
        \<and> distinct (map fst (pre @ (VStr c, v) # post))
        \<and> keep_col_cond (VStr c) \<and> edge_col_cond U (VStr c)
        \<and> (\<forall>k\<in>fst ` set post. keep_col_cond k \<and> edge_col_cond U k \<longrightarrow>
               format_edge_key k \<noteq> VStr (format_edge_col c)) \<longrightarrow>
        (\<exists>edges. map_of r ''edges'' = Some (VDict edges)
            \<and> map_of edges (VStr (format_edge_col c)) = Some v))"
proof (intro conjI impI)
  assume "\<not> has_sep (p @ ustr ''_'')"
  then show "format_edge_col (p @ ustr ''__'' @ s) = p" by (rule format_edge_col_first_sep)
next
  assume "\<not> has_sep col"
  then show "format_edge_col col = col" by (rule format_edge_col_no_sep)
next
  assume a: "split_node_edge U row = Inr r
        \<and> map_of row ''fields'' = Some (VDict fs) \<and> VStr c \<in> fst ` set fs
        \<and> keep_col_cond (VStr c) \<and> edge_col_cond U (VStr c)"
  from a split_node_edge_Inr[of U row r] have
    e: "map_of r ''edges'' =
          Some (VDict (dict_comp format_edge_key (edge_col_cond U) (dict_comp id keep_col_cond fs)))"
    by auto
  from a have "format_edge_key (VStr c)
        \<in> format_edge_key ` {k \<in> fst ` set fs. keep_col_cond k \<and> edge_col_cond U k}"
    by blast
  then have "VStr (format_edge_col c)
        \<in> fst ` set (dict_comp format_edge_key (edge_col_cond U) (dict_comp id keep_col_cond fs))"
    unfolding keys_kept_edges by simp
  with e show "\<exists>edges. map_of r ''edges'' = Some (VDict edges)
            \<and> VStr (format_edge_col c) \<in> fst ` set edges"
    by blast
next
  assume a: "split_node_edge U row = Inr r
        \<and> map_of row ''fields'' = Some (VDict (pre @ (VStr c, v) # post))
        \<and> distinct (map fst (pre @ (VStr c, v) # post))
        \<and> keep_col_cond (VStr c) \<and> edge_col_cond U (VStr c)
        \<and> (\<forall>k\<in>fst ` set post. keep_col_cond k \<and> edge_col_cond U k \<longrightarrow>
               format_edge_key k \<noteq> VStr (format_edge_col c))"
  let ?fs = "pre @ (VStr c, v) # post"
  let ?keep = "\<lambda>kv. keep_col_cond (fst kv)"
  from a split_node_edge_Inr[of U row r] have
    e: "map_of r ''edges'' =
          Some (VDict (dict_comp format_edge_key (edge_col_cond U) (dict_comp id keep_col_cond ?fs)))"
    by auto
  from a have kept: "dict_comp id keep_col_cond ?fs
        = filter ?keep pre @ (VStr c, v) # filter ?keep post"
    by (simp add: dict_comp_id)
  from a have later: "\<forall>kv\<in>set (filter ?keep post).
        edge_col_cond U (fst kv) \<longrightarrow> format_edge_key (fst kv) \<noteq> format_edge_key (VStr c)"
    by auto
  from a have "edge_col_cond U (VStr c)" by simp
  from dict_comp_last[of "edge_col_cond U" "VStr c" "filter ?keep post" format_edge_key
         "filter ?keep pre" v, OF this later]
  have "map_of (dict_comp format_edge_key (edge_col_cond U) (dict_comp id keep_col_cond ?fs))
          (VStr (format_edge_col c)) = Some v"
    by (simp add: kept)
  with e show "\<exists>edges. map_of r ''edges'' = Some (VDict edges)
            \<and> map_of edges (VStr (format_edge_col c)) = Some v"
    by blast
qed

theorem format_edge_col_truncates_witness:
  "format_edge_col (ustr ''FRIENDS__B'') = ustr ''FRIENDS''
   \<and> format_edge_col (ustr ''FRIENDS'') = ustr ''FRIENDS''
   \<and> (\<exists>edges. map_of friends_split ''edges'' = Some (VDict edges)
         \<and> map_of edges (VStr (ustr ''FRIENDS'')) = Some (VList [VStr (ustr ''rec00000000000003'')]))"
proof -
  let ?pre = "[(VStr (ustr ''FRIENDS__A''), VList [VStr (ustr ''rec00000000000002'')])]"
  let ?v = "VList [VStr (ustr ''rec00000000000003'')]"
  let ?post = "[(VStr (ustr ''Name''), VStr (ustr ''Ada''))]"
  have a: "\<not> has_sep (ustr ''FRIENDS'' @ ustr ''_'')" by (simp add: ustr_def)
  have b: "\<not> has_sep (ustr ''FRIENDS'')" by (simp add: ustr_def)
  have lab: "format_edge_col (ustr ''FRIENDS__B'') = ustr ''FRIENDS''" by (simp add: ustr_def)
  have c: "split_node_edge sample_case friends_row = Inr friends_split
        \<and> map_of friends_row ''fields'' = Some (VDict (?pre @ (VStr (ustr ''FRIENDS__B''), ?v) # ?post))
        \<and> distinct (map fst (?pre @ (VStr (ustr ''FRIENDS__B''), ?v) # ?post))
        \<and> keep_col_cond (VStr (ustr ''FRIENDS__B''))
        \<and> edge_col_cond sample_case (VStr (ustr ''FRIENDS__B''))
        \<and> (\<forall>k\<in>fst ` set ?post. keep_col_cond k \<and> edge_col_cond sample_case k \<longrightarrow>
               format_edge_key k \<noteq> VStr (format_edge_col (ustr ''FRIENDS__B'')))"
    by (simp add: friends_row_def friends_split_def split_node_edge_def dict_comp_def
          dict_del_def col_simps)
  from format_edge_col_truncates[of "ustr ''FRIENDS''" "ustr ''B''" "ustr ''FRIENDS''"
         sample_case friends_row friends_split _ "ustr ''FRIENDS__B''" ?pre ?v ?post]
  have "format_edge_col (ustr ''FRIENDS'' @ ustr ''__'' @ ustr ''B'') = ustr ''FRIENDS''"
    and "format_edge_col (ustr ''FRIENDS'') = ustr ''FRIENDS''"
    and "\<exists>edges. map_of friends_split ''edges'' = Some (VDict edges)
           \<and> map_of edges (VStr (format_edge_col (ustr ''FRIENDS__B''))) = Some ?v"
    using a b c by blast+
  then show ?thesis by (simp add: lab)
qed

lemma mk_edge_label: "map_of (mk_edge i k v) (VStr edge_label) = Some k"
  by (simp add: mk_edge_def map_of_dict_set)

lemma edges_of_items_Cons_Inr:
  assumes "edges_of_items i ((k, v) # rest) = Inr out"
  shows "\<exists>vs out'. py_iter v = Inr vs \<and> edges_of_items i rest = Inr out'
           \<and> out = map (mk_edge i k) vs @ out'"
proof (cases "py_iter v")
  case (Inl e)
  with assms show ?thesis by simp
next
  case (Inr vs)
  show ?thesis
  proof (cases "edges_of_items i rest")
    case (Inl e)
    with Inr assms show ?thesis by simp
  next
    case (Inr out')
    with \<open>py_iter v = Inr vs\<close> assms show ?thesis by simp
  qed
qed

lemma edges_of_items_labels:
  "edges_of_items i es = Inr out \<Longrightarrow> e \<in> set out \<Longrightarrow>
     \<exists>k'\<in>fst ` set es. map_of e (VStr edge_label) = Some k'"
proof (induction es arbitrary: out)
  case Nil
  then show ?case by simp
next
  case (Cons kv es)
  obtain k v where kv: "kv = (k, v)" by (cases kv)
  from Cons.prems(1) kv edges_of_items_Cons_Inr[of i k v es out] obtain vs out' where
    out': "edges_of_items i es = Inr out'" and out: "out = map (mk_edge i k) vs @ out'"
    by blast
  from Cons.prems(2) out consider "e \<in> mk_edge i k ` set vs" | "e \<in> set out'" by auto
  then show ?case
  proof cases
    case 1
    then have "map_of e (VStr edge_label) = Some k" using mk_edge_label by auto
    with kv show ?thesis by simp
  next
    case 2
    from Cons.IH[OF out' 2] show ?thesis by auto
  qed
qed

lemma edges_of_items_str:
  "edges_of_items i ((k, VStr s) # rest)
     = (case edges_of_items i rest of
          Inl e \<Rightarrow> Inl e
        | Inr es \<Rightarrow> Inr (map (\<lambda>c. mk_edge i k (VStr [c])) s @ es))"
  by (cases "edges_of_items i rest") (simp_all add: comp_def)

lemma edges_of_items_empty_list:
  "edges_of_items i ((k, VList []) # rest) = edges_of_items i rest"
  by (cases "edges_of_items i rest") simp_all

text \<open>
  C10. A name that starts with \<open>_\<close> is Ignored, so no key of \<open>props\<close> starts with
  \<open>_\<close> and \<open>_aid\<close> is not among them. The node built from a split row therefore
  has the row's \<open>id\<close> under \<open>_aid\<close> and agrees with \<open>props\<close> on every other key.
\<close>

theorem aid_is_row_id:
  assumes "split_node_edge U row = Inr r" and "make_node_list r = Inr node"
  shows "\<exists>props.
      map_of r ''props'' = Some (VDict props)
    \<and> (\<forall>s. startswith_underscore s \<longrightarrow> classify U (VStr s) = Ignored \<and> VStr s \<notin> fst ` set props)
    \<and> VStr airtable_id_col \<notin> fst ` set props
    \<and> map_of row ''id'' \<noteq> None
    \<and> map_of node (VStr airtable_id_col) = map_of row ''id''
    \<and> (\<forall>k. k \<noteq> VStr airtable_id_col \<longrightarrow> map_of node k = map_of props k)"
proof -
  from split_node_edge_Inr[OF assms(1)] obtain fs where
    p: "map_of r ''props'' =
          Some (VDict (dict_comp id (prop_col_cond U) (dict_comp id keep_col_cond fs)))" and
    i: "map_of r ''id'' = map_of row ''id''"
    by blast
  let ?props = "dict_comp id (prop_col_cond U) (dict_comp id keep_col_cond fs)"
  have kept: "\<And>k. k \<in> fst ` set ?props \<Longrightarrow> keep_col_cond k"
    unfolding keys_kept_props by blast
  have ign: "classify U (VStr s) = Ignored \<and> VStr s \<notin> fst ` set ?props"
    if "startswith_underscore s" for s
  proof -
    from that have nk: "\<not> keep_col_cond (VStr s)" by simp
    then have "classify U (VStr s) = Ignored" by (simp add: classify_def)
    moreover from nk kept[of "VStr s"] have "VStr s \<notin> fst ` set ?props" by blast
    ultimately show ?thesis by simp
  qed
  have "startswith_underscore airtable_id_col"
    by (simp add: airtable_id_col_def startswith_underscore_def ustr_def)
  then have fresh: "VStr airtable_id_col \<notin> fst ` set ?props"
    using ign by blast
  from assms(2) p i obtain v where
    v: "map_of row ''id'' = Some v" and
    n: "node = dict_set ?props (VStr airtable_id_col) v"
    by (auto simp: make_node_list_def split: option.splits)
  from n have look: "map_of node = (map_of ?props)(VStr airtable_id_col \<mapsto> v)"
    by (simp add: map_of_dict_set)
  from p ign fresh v look show ?thesis by auto
qed

theorem aid_is_row_id_witness:
  "split_node_edge sample_case ada_row = Inr ada_split \<and> make_node_list ada_split = Inr ada_node
   \<and> map_of ada_node (VStr (ustr ''_aid'')) = Some (VStr (ustr ''rec00000000000001''))"
proof -
  have "map_of ada_row ''id'' = Some (VStr (ustr ''rec00000000000001''))"
    by (simp add: ada_row_def)
  with aid_is_row_id[OF split_ada node_ada] split_ada node_ada show ?thesis
    by (auto simp: airtable_id_col_def)
qed

text \<open>
  C7, as stated, fails: the edge loop iterates over the value of an edge column as it
  is. A string is iterated character by character, so the scalar \<open>ab\<close> under
  \<open>FRIENDS\<close> gives two tuples with the targets \<open>a\<close> and \<open>b\<close>, not one tuple
  with the target \<open>ab\<close>; a number is not iterable and the loop raises \<open>TypeError\<close>.
\<close>

theorem scalar_edge_value_counterexample:
  "edges_of_row [(''id'', VStr (ustr ''r1'')), (''edges'', VDict [(VStr (ustr ''FRIENDS''), VStr (ustr ''ab''))]),
                 (''props'', VDict [])]
     = Inr [mk_edge (VStr (ustr ''r1'')) (VStr (ustr ''FRIENDS'')) (VStr (ustr ''a'')),
            mk_edge (VStr (ustr ''r1'')) (VStr (ustr ''FRIENDS'')) (VStr (ustr ''b''))]
   \<and> edges_of_row [(''id'', VStr (ustr ''r1'')), (''edges'', VDict [(VStr (ustr ''FRIENDS''), VStr (ustr ''ab''))]),
                   (''props'', VDict [])]
     \<noteq> Inr [mk_edge (VStr (ustr ''r1'')) (VStr (ustr ''FRIENDS'')) (VStr (ustr ''ab''))]
   \<and> edges_of_row [(''id'', VStr (ustr ''r1'')), (''edges'', VDict [(VStr (ustr ''AGE''), VInt 42)]),
                   (''props'', VDict [])]
     = Inl TypeError"
  by (simp add: edges_of_row_def ustr_def)

text \<open>
  C7, amended. A list under an edge label gives one tuple per element, in order, and
  none when the list is empty; a string gives one tuple per character; \<open>None\<close>, a
  boolean or a number raises \<open>TypeError\<close>. Every tuple produced carries a label that
  is a key of \<open>edges\<close>, so a label that is absent gives no tuple.
\<close>

theorem edges_of_items_by_value:
  "edges_of_items i ((k, VList xs) # rest)
     = (case edges_of_items i rest of Inl e \<Rightarrow> Inl e | Inr es \<Rightarrow> Inr (map (mk_edge i k) xs @ es))
   \<and> edges_of_items i ((k, VList []) # rest) = edges_of_items i rest
   \<and> edges_of_items i ((k, VStr s) # rest)
     = (case edges_of_items i rest of
          Inl e \<Rightarrow> Inl e
        | Inr es \<Rightarrow> Inr (map (\<lambda>c. mk_edge i k (VStr [c])) s @ es))
   \<and> edges_of_items i ((k, VNone) # rest) = Inl TypeError
   \<and> edges_of_items i ((k, VBool b) # rest) = Inl TypeError
   \<and> edges_of_items i ((k, VInt n) # rest) = Inl TypeError
   \<and> (\<forall>out. edges_of_items i es = Inr out \<longrightarrow>
         (\<forall>e\<in>set out. \<exists>k'\<in>fst ` set es. map_of e (VStr edge_label) = Some k'))"
proof (intro conjI allI impI ballI)
  show "edges_of_items i ((k, VList xs) # rest)
     = (case edges_of_items i rest of Inl e \<Rightarrow> Inl e | Inr es \<Rightarrow> Inr (map (mk_edge i k) xs @ es))"
    by simp
  show "edges_of_items i ((k, VList []) # rest) = edges_of_items i rest"
    by (rule edges_of_items_empty_list)
  show "edges_of_items i ((k, VStr s) # rest)
     = (case edges_of_items i rest of
          Inl e \<Rightarrow> Inl e
        | Inr es \<Rightarrow> Inr (map (\<lambda>c. mk_edge i k (VStr [c])) s @ es))"
    by (rule edges_of_items_str)
  show "edges_of_items i ((k, VNone) # rest) = Inl TypeError" by simp
  show "edges_of_items i ((k, VBool b) # rest) = Inl TypeError" by simp
  show "edges_of_items i ((k, VInt n) # rest) = Inl TypeError" by simp
  show "\<exists>k'\<in>fst ` set es. map_of e (VStr edge_label) = Some k'"
    if "edges_of_items i es = Inr out" and "e \<in> set out" for out e
    using that by (rule edges_of_items_labels)
qed

theorem edges_of_items_by_value_witness:
  "edges_of_items (VStr (ustr ''r1''))
     [(VStr (ustr ''FRIENDS''), VList [VStr (ustr ''r2''), VStr (ustr ''r3'')]), (VStr (ustr ''KNOWS''), VList [])]
     = Inr [mk_edge (VStr (ustr ''r1'')) (VStr (ustr ''FRIENDS'')) (VStr (ustr ''r2'')),
            mk_edge (VStr (ustr ''r1'')) (VStr (ustr ''FRIENDS'')) (VStr (ustr ''r3''))]
   \<and> map_of (mk_edge (VStr (ustr ''r1'')) (VStr (ustr ''FRIENDS'')) (VStr (ustr ''r3''))) (VStr edge_label)
       \<in> Some ` fst ` set [(VStr (ustr ''FRIENDS''), VList [VStr (ustr ''r2''), VStr (ustr ''r3'')]),
                           (VStr (ustr ''KNOWS''), VList [])]"
proof -
  let ?es = "[(VStr (ustr ''FRIENDS''), VList [VStr (ustr ''r2''), VStr (ustr ''r3'')]), (VStr (ustr ''KNOWS''), VList [])]"
  let ?out = "[mk_edge (VStr (ustr ''r1'')) (VStr (ustr ''FRIENDS'')) (VStr (ustr ''r2'')),
               mk_edge (VStr (ustr ''r1'')) (VStr (ustr ''FRIENDS'')) (VStr (ustr ''r3''))]"
  let ?e = "mk_edge (VStr (ustr ''r1'')) (VStr (ustr ''FRIENDS'')) (VStr (ustr ''r3''))"
  have ev: "edges_of_items (VStr (ustr ''r1'')) ?es = Inr ?out"
    by simp
  have every: "\<forall>out. edges_of_items (VStr (ustr ''r1'')) ?es = Inr out \<longrightarrow>
         (\<forall>e\<in>set out. \<exists>k'\<in>fst ` set ?es. map_of e (VStr edge_label) = Some k')"
    using edges_of_items_by_value[of "VStr (ustr ''r1'')" VNone "[]" "[]" "[]" True 0 ?es]
    by (rule conjunct2[THEN conjunct2, THEN conjunct2, THEN conjunct2, THEN conjunct2, THEN conjunct2])
  have mem: "?e \<in> set ?out" by simp
  have "\<exists>k'\<in>fst ` set ?es. map_of ?e (VStr edge_label) = Some k'"
    by (rule bspec[OF mp[OF spec[OF every] ev] mem])
  then have "map_of ?e (VStr edge_label) \<in> Some ` fst ` set ?es"
    by (rule bexE) (erule ssubst, erule imageI)
  with ev show ?thesis by (rule conjI)
qed

text \<open>
  C8, as stated, fails: a record without \<open>id\<close> is split without any error. In a
  table where another record has an \<open>id\<close>, the frame gives the record the
  identifier \<open>NaN\<close> and the normalized record keeps it; in a table where no record
  has one, the normalized record has no \<open>id\<close> at all.
\<close>

theorem split_without_id_counterexample:
  "download_airtable_and_return_as_df sample_case (ustr ''People'', [ada_row, bob_row])
     = Inr (ustr ''People'',
            [ada_split,
             [(''id'', VNaN), (''edges'', VDict []),
              (''props'', VDict [(VStr (ustr ''Name''), VStr (ustr ''Bob''))])]])
   \<and> download_airtable_and_return_as_df sample_case (ustr ''People'', [bob_row])
     = Inr (ustr ''People'',
            [[(''edges'', VDict []),
              (''props'', VDict [(VStr (ustr ''Name''), VStr (ustr ''Bob''))])]])"
  by (simp add: download_airtable_and_return_as_df_def frame_apply_def data_frame_def
        frame_columns_def ada_row_def bob_row_def ada_split_def split_node_edge_def
        dict_comp_def dict_del_def col_simps)

text \<open>
  C8, amended. Splitting does not read the identifier: a row without \<open>id\<close> is split
  exactly as the same row with an \<open>id\<close> is, with the same exception or the same
  \<open>edges\<close> and \<open>props\<close>, and the record produced has under \<open>id\<close> what the
  row had there: nothing, or the \<open>NaN\<close> of the frame.
\<close>

theorem split_ignores_id:
  "split_node_edge U (dict_del row ''id'')
     = map_sum id (\<lambda>r. dict_del r ''id'') (split_node_edge U row)
   \<and> (split_node_edge U row = Inr r \<longrightarrow> map_of r ''id'' = map_of row ''id'')"
proof
  show "split_node_edge U (dict_del row ''id'')
     = map_sum id (\<lambda>r. dict_del r ''id'') (split_node_edge U row)"
  proof (cases "map_of row ''fields''")
    case None
    then show ?thesis by (simp add: split_node_edge_def map_of_dict_del)
  next
    case (Some fv)
    show ?thesis
    proof (cases fv)
      case (VDict fs)
      show ?thesis
      proof (cases "map_of row ''createdTime''")
        case None
        with Some VDict show ?thesis
          by (simp add: split_node_edge_def Let_def map_of_dict_del map_of_dict_set)
      next
        case (Some t)
        with \<open>map_of row ''fields'' = Some fv\<close> VDict show ?thesis
          by (simp add: split_node_edge_def Let_def map_of_dict_del map_of_dict_set
                dict_del_dict_set dict_del_dict_set_same dict_del_commute[of _ _ "''id''"])
      qed
    qed (use Some in \<open>simp_all add: split_node_edge_def map_of_dict_del\<close>)
  qed
next
  show "split_node_edge U row = Inr r \<longrightarrow> map_of r ''id'' = map_of row ''id''"
    using split_node_edge_Inr[of U row r] by blast
qed

theorem split_ignores_id_witness:
  "split_node_edge sample_case (dict_del ada_row ''id'') = Inr (dict_del ada_split ''id'')
   \<and> map_of ada_split ''id'' = Some (VStr (ustr ''rec00000000000001''))"
proof -
  have "map_of ada_row ''id'' = Some (VStr (ustr ''rec00000000000001''))"
    by (simp add: ada_row_def)
  with split_ignores_id[of sample_case ada_row ada_split] split_ada show ?thesis by simp
qed

section \<open>Properties of the job's list of writes\<close>

lemma map_result_fst:
  assumes "\<And>x y. f x = Inr y \<Longrightarrow> fst y = fst x"
  shows "map_result f xs = Inr ys \<Longrightarrow> map fst ys = map fst xs"
proof (induction xs arbitrary: ys)
  case Nil
  then show ?case by simp
next
  case (Cons x xs)
  from Cons.prems obtain y ys' where
    y: "f x = Inr y" and ys': "map_result f xs = Inr ys'" and ys: "ys = y # ys'"
    by (auto split: sum.splits)
  from assms[OF y] Cons.IH[OF ys'] ys show ?case by simp
qed

lemma download_keeps_names:
  "map_result (download_airtable_and_return_as_df U) tables = Inr dfs \<Longrightarrow>
     map fst dfs = map fst tables"
  by (rule map_result_fst[of "download_airtable_and_return_as_df U"])
     (auto simp: download_airtable_and_return_as_df_def split: sum.splits)

lemma create_nodes_writes:
  "create_nodes dfs = (ops, r) \<Longrightarrow>
     (\<forall>op\<in>set ops. \<not> is_edge_write op) \<and> (r = None \<longrightarrow> node_write_tables ops = map fst dfs)"
proof (induction dfs arbitrary: ops r)
  case Nil
  then show ?case by simp
next
  case (Cons tdf dfs)
  obtain table df where tdf: "tdf = (table, df)" by (cases tdf)
  show ?case
  proof (cases "frame_apply_to_list make_node_list df")
    case (Inl e)
    with Cons.prems tdf show ?thesis by auto
  next
    case (Inr node_list)
    obtain ops' r' where rest: "create_nodes dfs = (ops', r')" by (cases "create_nodes dfs")
    from Cons.prems tdf Inr rest have
      ops: "ops = BatchCreateNode table node_list # CreateConstraintFor table airtable_id_col # ops'"
      and r: "r = r'"
      by simp_all
    from Cons.IH[OF rest] ops r tdf show ?thesis by simp
  qed
qed

lemma create_edges_writes:
  "create_edges dfs = (ops, r) \<Longrightarrow> \<forall>op\<in>set ops. is_edge_write op"
proof (induction dfs arbitrary: ops r)
  case Nil
  then show ?case by simp
next
  case (Cons tdf dfs)
  obtain table df where tdf: "tdf = (table, df)" by (cases tdf)
  show ?case
  proof (cases "edge_list_of_frame df")
    case (Inl e)
    with Cons.prems tdf show ?thesis by auto
  next
    case (Inr edge_list)
    obtain ops' r' where rest: "create_edges dfs = (ops', r')" by (cases "create_edges dfs")
    from Cons.prems tdf Inr rest have ops: "ops = BatchCreateEdge edge_list # ops'"
      by simp
    from Cons.IH[OF rest] ops show ?thesis by simp
  qed
qed

lemma node_write_tables_append:
  "node_write_tables (xs @ ys) = node_write_tables xs @ node_write_tables ys"
  by (induction xs rule: node_write_tables.induct) simp_all

lemma node_write_tables_edges:
  "\<forall>op\<in>set ops. is_edge_write op \<Longrightarrow> node_write_tables ops = []"
  by (induction ops rule: node_write_tables.induct) simp_all

lemma first_edge_write_split:
  assumes "xs @ ys = pre @ op # post" and "\<forall>x\<in>set xs. \<not> is_edge_write x" and "is_edge_write op"
  shows "\<exists>pre'. pre = xs @ pre' \<and> ys = pre' @ op # post"
  using assms
proof (induction xs arbitrary: pre)
  case Nil
  then show ?case by simp
next
  case (Cons x xs)
  from Cons.prems have "pre \<noteq> []" by (cases pre) auto
  then obtain pre0 where pre: "pre = x # pre0" and eq: "xs @ ys = pre0 @ op # post"
    using Cons.prems(1) by (cases pre) auto
  from Cons.IH[OF eq] Cons.prems(2,3) pre show ?case by simp
qed

text \<open>
  The phases of a run: the optional \<open>Nuke\<close>, then writes none of which is an edge
  write, then edge writes only; and edge writes are there only when the node loop has
  written the nodes of every table.
\<close>

lemma job_phases:
  assumes "run_airtable_to_neo4j_ingest_job U nuke tables = (ops, r)"
  shows "\<exists>ops1 ops2. ops = ops1 @ ops2
           \<and> (\<forall>op\<in>set ops1. \<not> is_edge_write op)
           \<and> (\<forall>op\<in>set ops2. is_edge_write op)
           \<and> (ops2 \<noteq> [] \<longrightarrow> node_write_tables ops1 = map fst tables)"
proof (cases "map_result (download_airtable_and_return_as_df U) tables")
  case (Inl e)
  with assms have "ops = []" by (simp add: run_airtable_to_neo4j_ingest_job_def)
  then show ?thesis by simp
next
  case (Inr dfs)
  let ?ops0 = "if nuke then [Nuke] else []"
  obtain opsn rn where cn: "create_nodes dfs = (opsn, rn)" by (cases "create_nodes dfs")
  note n = create_nodes_writes[OF cn]
  have ops0: "\<forall>op\<in>set ?ops0. \<not> is_edge_write op" "node_write_tables ?ops0 = []"
    by simp_all
  show ?thesis
  proof (cases rn)
    case (Some e)
    with assms Inr cn have "ops = ?ops0 @ opsn"
      by (simp add: run_airtable_to_neo4j_ingest_job_def)
    with n ops0 have "ops = (?ops0 @ opsn) @ [] \<and> (\<forall>op\<in>set (?ops0 @ opsn). \<not> is_edge_write op)"
      by auto
    then show ?thesis by (intro exI[of _ "?ops0 @ opsn"] exI[of _ "[]"]) simp
  next
    case None
    obtain opse re where ce: "create_edges dfs = (opse, re)" by (cases "create_edges dfs")
    from assms Inr cn ce None have ops: "ops = (?ops0 @ opsn) @ opse"
      by (simp add: run_airtable_to_neo4j_ingest_job_def)
    from n None have "node_write_tables opsn = map fst dfs" by simp
    with download_keeps_names[OF Inr] have tabs: "node_write_tables (?ops0 @ opsn) = map fst tables"
      by (simp add: node_write_tables_append)
    from n ops0 have nod: "\<forall>op\<in>set (?ops0 @ opsn). \<not> is_edge_write op" by auto
    from ops nod create_edges_writes[OF ce] tabs show ?thesis
      by (intro exI[of _ "?ops0 @ opsn"] exI[of _ opse]) simp
  qed
qed

lemma data_frame_Nil: "data_frame [] = []"
  by (simp add: data_frame_def)

lemma data_frame_ada: "data_frame [ada_row] = [ada_row]"
  by (simp add: data_frame_def frame_columns_def ada_row_def)

lemma data_frame_ada_split: "data_frame [ada_split] = [ada_split]"
  by (simp add: data_frame_def frame_columns_def ada_split_def)

lemma download_people:
  "download_airtable_and_return_as_df sample_case (ustr ''People'', [ada_row])
     = Inr (ustr ''People'', [ada_split])"
proof -
  have "[ada_row] \<noteq> []" by simp
  then show ?thesis
    by (simp add: download_airtable_and_return_as_df_def frame_apply_def data_frame_ada
          split_ada data_frame_ada_split)
qed

lemma download_empty:
  "download_airtable_and_return_as_df U (ustr ''Empty'', []) = Inr (ustr ''Empty'', [])"
  by (simp add: download_airtable_and_return_as_df_def frame_apply_def data_frame_Nil)

lemma run_people:
  "run_airtable_to_neo4j_ingest_job sample_case nuke people =
     ((if nuke then [Nuke] else [])
        @ [BatchCreateNode (ustr ''People'') [ada_node], CreateConstraintFor (ustr ''People'') (ustr ''_aid''),
           BatchCreateEdge [ada_edge]], None)"
  by (simp add: run_airtable_to_neo4j_ingest_job_def people_def download_people
        frame_apply_to_list_def edge_list_of_frame_def node_ada edges_ada
        airtable_id_col_def)

section \<open>Claims about the order of the writes\<close>

text \<open>
  C2. Whenever a run issues an edge write, the node writes issued before it are those
  of every table of the source, one per table in order, and every write after it is an
  edge write: no edge write precedes the node write of any table.
\<close>

theorem edges_after_all_nodes:
  assumes "run_airtable_to_neo4j_ingest_job U nuke tables = (ops, r)"
      and "ops = pre @ op # post" and "is_edge_write op"
  shows "node_write_tables pre = map fst tables \<and> (\<forall>w\<in>set post. is_edge_write w)"
proof -
  from job_phases[OF assms(1)] obtain ops1 ops2 where
    ops: "ops = ops1 @ ops2" and
    n: "\<forall>op\<in>set ops1. \<not> is_edge_write op" and
    e: "\<forall>op\<in>set ops2. is_edge_write op" and
    t: "ops2 \<noteq> [] \<longrightarrow> node_write_tables ops1 = map fst tables"
    by blast
  from ops assms(2) have "ops1 @ ops2 = pre @ op # post" by simp
  from first_edge_write_split[OF this n assms(3)] obtain pre' where
    pre: "pre = ops1 @ pre'" and ops2: "ops2 = pre' @ op # post"
    by blast
  from ops2 e have pe: "\<forall>w\<in>set pre'. is_edge_write w" and po: "\<forall>w\<in>set post. is_edge_write w"
    by simp_all
  from ops2 t have "node_write_tables ops1 = map fst tables" by simp
  with pre node_write_tables_edges[OF pe] have "node_write_tables pre = map fst tables"
    by (simp add: node_write_tables_append)
  with po show ?thesis by simp
qed

theorem edges_after_all_nodes_witness:
  "run_airtable_to_neo4j_ingest_job sample_case False people =
     ([BatchCreateNode (ustr ''People'') [ada_node], CreateConstraintFor (ustr ''People'') (ustr ''_aid'')]
        @ BatchCreateEdge [ada_edge] # [], None)
   \<and> is_edge_write (BatchCreateEdge [ada_edge])
   \<and> node_write_tables [BatchCreateNode (ustr ''People'') [ada_node], CreateConstraintFor (ustr ''People'') (ustr ''_aid'')]
       = map fst people"
proof -
  have run: "run_airtable_to_neo4j_ingest_job sample_case False people =
     ([BatchCreateNode (ustr ''People'') [ada_node], CreateConstraintFor (ustr ''People'') (ustr ''_aid'')]
        @ BatchCreateEdge [ada_edge] # [], None)"
    by (simp add: run_people)
  have e: "is_edge_write (BatchCreateEdge [ada_edge])" by simp
  from edges_after_all_nodes[OF run refl e] run e show ?thesis by simp
qed

text \<open>
  C3. The source with the one table \<open>People\<close> and the one row of Ada: the run writes
  the nodes of the table first and creates the constraint after, the reverse of the
  order claimed.
\<close>

theorem nodes_before_constraint:
  "run_airtable_to_neo4j_ingest_job sample_case False people =
     ([BatchCreateNode (ustr ''People'') [ada_node],
       CreateConstraintFor (ustr ''People'') (ustr ''_aid''),
       BatchCreateEdge [ada_edge]], None)"
  by (simp add: run_people)

text \<open>
  C9. A source whose one table has no rows: the run ends with \<open>AttributeError\<close>
  while it builds the node list, before any write. After a table with rows, the table
  without rows ends the run in the node loop, so that no edge is written at all.
\<close>

theorem empty_table_raises:
  "run_airtable_to_neo4j_ingest_job sample_case False [(ustr ''Empty'', [])] = ([], Some AttributeError)
   \<and> run_airtable_to_neo4j_ingest_job sample_case False (people @ [(ustr ''Empty'', [])]) =
       ([BatchCreateNode (ustr ''People'') [ada_node], CreateConstraintFor (ustr ''People'') (ustr ''_aid'')],
        Some AttributeError)"
  by (simp add: run_airtable_to_neo4j_ingest_job_def people_def download_people
        download_empty frame_apply_to_list_def node_ada airtable_id_col_def)

section \<open>Merging into the store\<close>

lemma store_le_refl: "store_le st st"
  by (simp add: store_le_def)

lemma store_le_trans: "store_le a b \<Longrightarrow> store_le b c \<Longrightarrow> store_le a c"
  by (auto simp: store_le_def)

lemma store_same_le: "store_same a b \<Longrightarrow> store_le a b"
  by (simp add: store_same_def store_le_def)

lemma store_same_refl: "store_same st st"
  by (simp add: store_same_def)

lemma store_same_trans: "store_same a b \<Longrightarrow> store_same b c \<Longrightarrow> store_same a c"
  by (simp add: store_same_def)

text \<open>
  A list of merges in general: when each merge only adds keys, leaves its own item
  present, and changes neither keys nor counts when its item is present already, then
  after the whole list every item is present, and repeating the list changes neither
  keys nor counts.
\<close>

lemma fold_store_le:
  assumes mono: "\<And>x st. ok x \<Longrightarrow> store_le st (step x st)"
  shows "list_all ok xs \<Longrightarrow> store_le st (fold step xs st)"
proof (induction xs arbitrary: st)
  case Nil
  then show ?case by (simp add: store_le_refl)
next
  case (Cons x xs)
  from Cons.prems have "ok x" and "list_all ok xs" by simp_all
  have "store_le st (step x st)" by (rule mono[OF \<open>ok x\<close>])
  moreover have "store_le (step x st) (fold step xs (step x st))"
    by (rule Cons.IH[OF \<open>list_all ok xs\<close>])
  ultimately have "store_le st (fold step xs (step x st))" by (rule store_le_trans)
  then show ?case by simp
qed

lemma fold_written:
  assumes mono: "\<And>x st. ok x \<Longrightarrow> store_le st (step x st)"
      and sat: "\<And>x st. ok x \<Longrightarrow> w x (step x st)"
      and wmono: "\<And>x st st'. w x st \<Longrightarrow> store_le st st' \<Longrightarrow> w x st'"
  shows "list_all ok xs \<Longrightarrow> list_all (\<lambda>x. w x (fold step xs st)) xs"
proof (induction xs arbitrary: st)
  case Nil
  then show ?case by simp
next
  case (Cons x xs)
  from Cons.prems have okx: "ok x" and okxs: "list_all ok xs" by simp_all
  have "store_le (step x st) (fold step xs (step x st))"
    by (rule fold_store_le[of ok step, OF mono okxs])
  with sat[OF okx] have "w x (fold step xs (step x st))" by (rule wmono)
  with Cons.IH[OF okxs] show ?case by simp
qed

lemma fold_same:
  assumes keep: "\<And>x st. ok x \<Longrightarrow> w x st \<Longrightarrow> store_same st (step x st)"
      and wmono: "\<And>x st st'. w x st \<Longrightarrow> store_le st st' \<Longrightarrow> w x st'"
  shows "list_all ok xs \<Longrightarrow> list_all (\<lambda>x. w x st) xs \<Longrightarrow> store_same st (fold step xs st)"
proof (induction xs arbitrary: st)
  case Nil
  then show ?case by (simp add: store_same_refl)
next
  case (Cons x xs)
  from Cons.prems have okx: "ok x" and okxs: "list_all ok xs"
    and wx: "w x st" and wxs: "list_all (\<lambda>x. w x st) xs"
    by simp_all
  from keep[OF okx wx] have same: "store_same st (step x st)" .
  then have le: "store_le st (step x st)" by (rule store_same_le)
  from wxs have "list_all (\<lambda>y. w y (step x st)) xs"
    unfolding list_all_iff using wmono[OF _ le] by blast
  from Cons.IH[OF okxs this] have "store_same (step x st) (fold step xs (step x st))" .
  with same have "store_same st (fold step xs (step x st))" by (rule store_same_trans)
  then show ?case by simp
qed

subsection \<open>Node merges\<close>

lemma merge_node_keys_list:
  "map node_key (merge_node label p ns) =
     (if (Some label, node_aid p) \<in> node_key ` set ns then map node_key ns
      else map node_key ns @ [(Some label, node_aid p)])"
proof -
  have k: "node_key (Some label, p) = (Some label, node_aid p)"
    by (simp add: node_key_def)
  have "map node_key
          (map (\<lambda>n. if node_key n = (Some label, node_aid p) then (Some label, p) else n) ns)
        = map node_key ns"
    by (induction ns) (simp_all add: k)
  then show ?thesis
    by (simp add: merge_node_def list_ex_iff k image_iff) metis
qed

lemma merge_node_step_le: "store_le st (merge_node_step label p st)"
proof -
  have "set (map node_key (nodes st)) \<subseteq> set (map node_key (merge_node label p (nodes st)))"
    unfolding merge_node_keys_list by auto
  then show ?thesis by (simp add: store_le_def node_keys_def merge_node_step_def)
qed

lemma merge_node_step_written: "node_written label p (merge_node_step label p st)"
proof -
  have "(Some label, node_aid p) \<in> set (map node_key (merge_node label p (nodes st)))"
    unfolding merge_node_keys_list by auto
  then show ?thesis by (simp add: node_written_def node_keys_def merge_node_step_def)
qed

lemma merge_node_step_same:
  assumes "node_written label p st"
  shows "store_same st (merge_node_step label p st)"
proof -
  from assms have "map node_key (merge_node label p (nodes st)) = map node_key (nodes st)"
    unfolding merge_node_keys_list by (simp add: node_written_def node_keys_def)
  then have "set (map node_key (merge_node label p (nodes st))) = set (map node_key (nodes st))"
        and "length (map node_key (merge_node label p (nodes st))) = length (map node_key (nodes st))"
    by simp_all
  then show ?thesis by (simp add: store_same_def node_keys_def merge_node_step_def)
qed

lemma merge_node_step_distinct:
  "store_distinct st \<Longrightarrow> store_distinct (merge_node_step label p st)"
  by (simp add: store_distinct_def merge_node_step_def merge_node_keys_list)

lemma node_written_mono: "node_written label p st \<Longrightarrow> store_le st st' \<Longrightarrow> node_written label p st'"
  by (auto simp: node_written_def store_le_def)

lemma batch_create_node_fold:
  "batch_create_node label ps st = fold (merge_node_step label) ps st"
proof -
  have "fold (merge_node_step label) ps st = st\<lparr>nodes := fold (merge_node label) ps (nodes st)\<rparr>"
    by (induction ps arbitrary: st) (simp_all add: merge_node_step_def)
  then show ?thesis by (simp add: batch_create_node_def)
qed

subsection \<open>Edge merges\<close>

lemma merge_endpoint_cases:
  "merge_endpoint x ns =
     (if Some x \<in> snd ` node_key ` set ns then ns else ns @ [(None, [(VStr airtable_id_col, x)])])"
proof -
  have "snd ` node_key ` set ns = (\<lambda>n. node_aid (snd n)) ` set ns"
    by (simp add: image_image node_key_def)
  then have "list_ex (\<lambda>n. node_aid (snd n) = Some x) ns \<longleftrightarrow> Some x \<in> snd ` node_key ` set ns"
    unfolding list_ex_iff by (simp only: image_iff) metis
  then show ?thesis by (simp add: merge_endpoint_def)
qed

lemma merge_endpoint_key:
  "node_key (None, [(VStr airtable_id_col, x)]) = (None, Some x)"
  by (simp add: node_key_def node_aid_def)

lemma merge_endpoint_keys:
  "node_key ` set (merge_endpoint x ns) =
     (if Some x \<in> snd ` node_key ` set ns then node_key ` set ns
      else insert (None, Some x) (node_key ` set ns))"
  by (simp add: merge_endpoint_cases merge_endpoint_key)

lemma merge_endpoint_has_id: "Some x \<in> snd ` node_key ` set (merge_endpoint x ns)"
  unfolding merge_endpoint_keys by (simp add: image_iff)

lemma merge_endpoint_grows: "node_key ` set ns \<subseteq> node_key ` set (merge_endpoint x ns)"
  unfolding merge_endpoint_keys by auto

lemma merge_endpoint_fresh:
  "Some x \<notin> snd ` node_key ` set ns \<Longrightarrow> (None, Some x) \<notin> node_key ` set ns"
  by (metis imageI snd_conv)

lemma merge_endpoint_distinct:
  "distinct (map node_key ns) \<Longrightarrow> distinct (map node_key (merge_endpoint x ns))"
proof (cases "Some x \<in> snd ` node_key ` set ns")
  case True
  then show "distinct (map node_key ns) \<Longrightarrow> distinct (map node_key (merge_endpoint x ns))"
    by (simp add: merge_endpoint_cases)
next
  case False
  then have "(None, Some x) \<notin> node_key ` set ns" by (rule merge_endpoint_fresh)
  with False show "distinct (map node_key ns) \<Longrightarrow> distinct (map node_key (merge_endpoint x ns))"
    by (simp add: merge_endpoint_cases merge_endpoint_key)
qed

lemma merge_edge_le: "store_le st (merge_edge e st)"
proof -
  have "node_key ` set (nodes st)
          \<subseteq> node_key ` set (merge_endpoint (edge_field e edge_target)
                              (merge_endpoint (edge_field e edge_source) (nodes st)))"
    using merge_endpoint_grows[of "nodes st" "edge_field e edge_source"]
      merge_endpoint_grows[of "merge_endpoint (edge_field e edge_source) (nodes st)"
        "edge_field e edge_target"]
    by (rule subset_trans)
  then show ?thesis
    by (auto simp: store_le_def node_keys_def merge_edge_def Let_def)
qed

lemma merge_edge_written: "edge_written e (merge_edge e st)"
proof -
  let ?s = "edge_field e edge_source" and ?t = "edge_field e edge_target"
  let ?ns = "merge_endpoint ?t (merge_endpoint ?s (nodes st))"
  have t: "Some ?t \<in> snd ` node_key ` set ?ns" by (rule merge_endpoint_has_id)
  have "Some ?s \<in> snd ` node_key ` set (merge_endpoint ?s (nodes st))"
    by (rule merge_endpoint_has_id)
  with merge_endpoint_grows[of "merge_endpoint ?s (nodes st)" ?t]
  have s: "Some ?s \<in> snd ` node_key ` set ?ns" by blast
  from s t show ?thesis
    by (simp add: edge_written_def node_ids_def node_keys_def merge_edge_def Let_def)
qed

lemma merge_edge_same:
  assumes "edge_written e st"
  shows "store_same st (merge_edge e st)"
proof -
  let ?s = "edge_field e edge_source" and ?t = "edge_field e edge_target"
  from assms have s: "Some ?s \<in> snd ` node_key ` set (nodes st)"
    and t: "Some ?t \<in> snd ` node_key ` set (nodes st)"
    and r: "(?s, ?t, edge_field e edge_label) \<in> set (rels st)"
    by (simp_all add: edge_written_def node_ids_def node_keys_def)
  from s have 1: "merge_endpoint ?s (nodes st) = nodes st" by (simp add: merge_endpoint_cases)
  from t 1 have 2: "merge_endpoint ?t (merge_endpoint ?s (nodes st)) = nodes st"
    by (simp add: merge_endpoint_cases)
  from r 2 show ?thesis
    by (simp add: store_same_def node_keys_def merge_edge_def Let_def)
qed

lemma merge_edge_distinct: "store_distinct st \<Longrightarrow> store_distinct (merge_edge e st)"
  by (simp add: store_distinct_def merge_edge_def Let_def merge_endpoint_distinct)

lemma edge_written_mono: "edge_written e st \<Longrightarrow> store_le st st' \<Longrightarrow> edge_written e st'"
  by (auto simp: edge_written_def store_le_def node_ids_def)

subsection \<open>Writes\<close>

lemma list_all_True: "list_all (\<lambda>_. True) xs"
  by (simp add: list_all_iff)

lemma exec_op_le: "op \<noteq> Nuke \<Longrightarrow> store_le st (exec_op op st)"
proof (cases op)
  case (BatchCreateNode label ps)
  have "store_le st (fold (merge_node_step label) ps st)"
    by (rule fold_store_le[of "\<lambda>_. True"]) (rule merge_node_step_le, rule list_all_True)
  with BatchCreateNode show ?thesis by (simp add: batch_create_node_fold)
next
  case (CreateConstraintFor label c)
  then show ?thesis by (simp add: create_constraint_for_def store_le_def node_keys_def)
next
  case (BatchCreateEdge es)
  have "store_le st (fold merge_edge es st)"
    by (rule fold_store_le[of "\<lambda>_. True"]) (rule merge_edge_le, rule list_all_True)
  with BatchCreateEdge show ?thesis by (simp add: batch_create_edge_def)
qed simp

lemma exec_op_written: "op \<noteq> Nuke \<Longrightarrow> op_written op (exec_op op st)"
proof (cases op)
  case (BatchCreateNode label ps)
  have "list_all (\<lambda>p. node_written label p (fold (merge_node_step label) ps st)) ps"
    by (rule fold_written[of "\<lambda>_. True"])
       (rule merge_node_step_le, rule merge_node_step_written, erule node_written_mono,
        assumption, rule list_all_True)
  with BatchCreateNode show ?thesis by (simp add: batch_create_node_fold)
next
  case (BatchCreateEdge es)
  have "list_all (\<lambda>e. edge_written e (fold merge_edge es st)) es"
    by (rule fold_written[of "\<lambda>_. True"])
       (rule merge_edge_le, rule merge_edge_written, erule edge_written_mono,
        assumption, rule list_all_True)
  with BatchCreateEdge show ?thesis by (simp add: batch_create_edge_def)
qed simp_all

lemma op_written_mono: "op_written op st \<Longrightarrow> store_le st st' \<Longrightarrow> op_written op st'"
proof (cases op)
  case (BatchCreateNode label ps)
  assume "op_written op st" and "store_le st st'"
  with BatchCreateNode have "\<forall>p\<in>set ps. node_written label p st" by (simp add: list_all_iff)
  with \<open>store_le st st'\<close> have "\<forall>p\<in>set ps. node_written label p st'"
    using node_written_mono by blast
  with BatchCreateNode show ?thesis by (simp add: list_all_iff)
next
  case (BatchCreateEdge es)
  assume "op_written op st" and "store_le st st'"
  with BatchCreateEdge have "\<forall>e\<in>set es. edge_written e st" by (simp add: list_all_iff)
  with \<open>store_le st st'\<close> have "\<forall>e\<in>set es. edge_written e st'"
    using edge_written_mono by blast
  with BatchCreateEdge show ?thesis by (simp add: list_all_iff)
qed simp_all

lemma exec_op_same: "op \<noteq> Nuke \<Longrightarrow> op_written op st \<Longrightarrow> store_same st (exec_op op st)"
proof (cases op)
  case (BatchCreateNode label ps)
  assume "op_written op st"
  with BatchCreateNode have w: "list_all (\<lambda>p. node_written label p st) ps" by simp
  have "store_same st (fold (merge_node_step label) ps st)"
    by (rule fold_same[of "\<lambda>_. True" "node_written label"])
       (erule merge_node_step_same, erule node_written_mono, assumption,
        rule list_all_True, rule w)
  with BatchCreateNode show ?thesis by (simp add: batch_create_node_fold)
next
  case (CreateConstraintFor label c)
  then show ?thesis by (simp add: create_constraint_for_def store_same_def node_keys_def)
next
  case (BatchCreateEdge es)
  assume "op_written op st"
  with BatchCreateEdge have w: "list_all (\<lambda>e. edge_written e st) es" by simp
  have "store_same st (fold merge_edge es st)"
    by (rule fold_same[of "\<lambda>_. True" edge_written])
       (erule merge_edge_same, erule edge_written_mono, assumption,
        rule list_all_True, rule w)
  with BatchCreateEdge show ?thesis by (simp add: batch_create_edge_def)
qed simp

lemma fold_invariant:
  assumes "\<And>x st. P st \<Longrightarrow> P (step x st)"
  shows "P st \<Longrightarrow> P (fold step xs st)"
  by (induction xs arbitrary: st) (simp_all add: assms)

lemma exec_op_distinct: "store_distinct st \<Longrightarrow> store_distinct (exec_op op st)"
proof (cases op)
  case Nuke
  then show ?thesis by (simp add: store_distinct_def)
next
  case (BatchCreateNode label ps)
  assume d: "store_distinct st"
  have "store_distinct (fold (merge_node_step label) ps st)"
    by (rule fold_invariant[of store_distinct]) (erule merge_node_step_distinct, rule d)
  with BatchCreateNode show ?thesis by (simp add: batch_create_node_fold)
next
  case (CreateConstraintFor label c)
  assume "store_distinct st"
  with CreateConstraintFor show ?thesis by (simp add: create_constraint_for_def store_distinct_def)
next
  case (BatchCreateEdge es)
  assume d: "store_distinct st"
  have "store_distinct (fold merge_edge es st)"
    by (rule fold_invariant[of store_distinct]) (erule merge_edge_distinct, rule d)
  with BatchCreateEdge show ?thesis by (simp add: batch_create_edge_def)
qed

text \<open>A list of writes without \<open>Nuke\<close>, run a second time, changes neither keys nor counts.\<close>

lemma writes_twice_same:
  assumes "list_all (\<lambda>op. op \<noteq> Nuke) ops"
  shows "store_same (fold exec_op ops st) (fold exec_op ops (fold exec_op ops st))"
proof -
  have "list_all (\<lambda>op. op_written op (fold exec_op ops st)) ops"
    by (rule fold_written[of "\<lambda>op. op \<noteq> Nuke"])
       (erule exec_op_le, erule exec_op_written, erule op_written_mono, assumption, rule assms)
  then show ?thesis
    by (rule fold_same[of "\<lambda>op. op \<noteq> Nuke" op_written, rotated 3])
       (erule exec_op_same, assumption, erule op_written_mono, assumption, rule assms)
qed

lemma create_nodes_no_nuke: "create_nodes dfs = (ops, r) \<Longrightarrow> list_all (\<lambda>op. op \<noteq> Nuke) ops"
proof (induction dfs arbitrary: ops r)
  case Nil
  then show ?case by simp
next
  case (Cons tdf dfs)
  obtain table df where tdf: "tdf = (table, df)" by (cases tdf)
  show ?case
  proof (cases "frame_apply_to_list make_node_list df")
    case (Inl e)
    with Cons.prems tdf show ?thesis by auto
  next
    case (Inr node_list)
    obtain ops' r' where rest: "create_nodes dfs = (ops', r')" by (cases "create_nodes dfs")
    from Cons.prems tdf Inr rest have
      "ops = BatchCreateNode table node_list # CreateConstraintFor table airtable_id_col # ops'"
      by simp
    with Cons.IH[OF rest] show ?thesis by simp
  qed
qed

lemma create_edges_no_nuke: "create_edges dfs = (ops, r) \<Longrightarrow> list_all (\<lambda>op. op \<noteq> Nuke) ops"
proof -
  assume "create_edges dfs = (ops, r)"
  from create_edges_writes[OF this] have "\<forall>op\<in>set ops. op \<noteq> Nuke" by auto
  then show ?thesis by (simp add: list_all_iff)
qed

lemma run_no_nuke:
  assumes "run_airtable_to_neo4j_ingest_job U False tables = (ops, r)"
  shows "list_all (\<lambda>op. op \<noteq> Nuke) ops"
proof (cases "map_result (download_airtable_and_return_as_df U) tables")
  case (Inl e)
  with assms show ?thesis by (simp add: run_airtable_to_neo4j_ingest_job_def)
next
  case (Inr dfs)
  obtain opsn rn where cn: "create_nodes dfs = (opsn, rn)" by (cases "create_nodes dfs")
  obtain opse re where ce: "create_edges dfs = (opse, re)" by (cases "create_edges dfs")
  from assms Inr cn ce have "ops = opsn \<or> ops = opsn @ opse"
    by (cases rn) (simp_all add: run_airtable_to_neo4j_ingest_job_def)
  with create_nodes_no_nuke[OF cn] create_edges_no_nuke[OF ce] show ?thesis by auto
qed

lemma ingest_people:
  "ingest sample_case False people empty_store =
     \<lparr>nodes = [(Some (ustr ''People''), ada_node), (None, [(VStr (ustr ''_aid''), VStr (ustr ''rec00000000000002''))])],
      rels = [(VStr (ustr ''rec00000000000001''), VStr (ustr ''rec00000000000002''), VStr (ustr ''FRIENDS''))],
      constraints = [(ustr ''People'', ustr ''_aid'')]\<rparr>"
  by (simp add: ingest_def run_people empty_store_def batch_create_node_def merge_node_def
        create_constraint_for_def batch_create_edge_def merge_edge_def merge_endpoint_def
        edge_field_def ada_edge_def ada_node_def node_key_def node_aid_def airtable_id_col_def
        edge_source_def edge_target_def edge_label_def Let_def ustr_def)

section \<open>Claim about re-ingest U\<close>

text \<open>
  C1. A second run of the job without \<open>nuke\<close>, on the same source, leaves the number
  of nodes and the number of relationships as the first run left them, adds no node key
  (label and identifier) and no relationship. A store without two nodes of the same
  label and identifier and without two equal relationships is still such a store after
  a run, with or without \<open>nuke\<close>.
\<close>

theorem reingest_idempotent:
  "length (nodes (ingest U False tables (ingest U False tables st)))
     = length (nodes (ingest U False tables st))
   \<and> length (rels (ingest U False tables (ingest U False tables st)))
     = length (rels (ingest U False tables st))
   \<and> node_keys (ingest U False tables (ingest U False tables st)) = node_keys (ingest U False tables st)
   \<and> set (rels (ingest U False tables (ingest U False tables st))) = set (rels (ingest U False tables st))
   \<and> (store_distinct st \<longrightarrow> store_distinct (ingest U nuke tables st))"
proof -
  obtain ops r where run: "run_airtable_to_neo4j_ingest_job U False tables = (ops, r)"
    by (cases "run_airtable_to_neo4j_ingest_job U False tables")
  from writes_twice_same[OF run_no_nuke[OF run], of st] run
  have "store_same (ingest U False tables st) (ingest U False tables (ingest U False tables st))"
    by (simp add: ingest_def)
  moreover have "store_distinct (ingest U nuke tables st)" if "store_distinct st"
    unfolding ingest_def
    by (rule fold_invariant[of store_distinct]) (erule exec_op_distinct, rule that)
  ultimately show ?thesis by (simp add: store_same_def)
qed

theorem reingest_idempotent_witness:
  "store_distinct empty_store
   \<and> length (nodes (ingest sample_case False people (ingest sample_case False people empty_store))) = 2
   \<and> length (rels (ingest sample_case False people (ingest sample_case False people empty_store))) = 1
   \<and> store_distinct (ingest sample_case False people empty_store)"
proof -
  have d: "store_distinct empty_store" by (simp add: store_distinct_def empty_store_def)
  from reingest_idempotent[of sample_case people empty_store False] d show ?thesis
    by (simp add: ingest_people)
qed


end
